theory Spec2Isabelle
  imports Complex_Main "HOL-Library.AList" "HOL-Library.List_Lexorder"
begin

section \<open>The network simulator of app/home.tsx\<close>

text \<open>
  The simulator screen keeps its whole state in React state variables and changes it
  through a handful of handlers. The model below follows the second (full) simulator
  of the source: its interfaces become records, its string unions become datatypes, the
  state variables become one record, and every handler becomes a function from state to
  state. The first, smaller simulator of the source has the same \<open>findPath\<close>, the same
  tick body and a \<open>sendPacket\<close> without the statistics.

  JavaScript numbers are modelled as real numbers with one extra value for \<open>NaN\<close>
  (rounding and infinities are not modelled); counters that only ever count are natural
  numbers. An optional field is an \<open>option\<close>, \<open>None\<close> standing for \<open>undefined\<close>.
  The fields of a record carry a prefix (\<open>n_\<close> for a node, \<open>p_\<close> for a packet, \<open>c_\<close> for a
  connection, and so on), since the interfaces share the names \<open>id\<close>, \<open>status\<close> and others.
\<close>

subsection \<open>Data model\<close>

datatype node_type = Router | Switch | Host

datatype node_status = Active | Inactive | Error

datatype conn_status = ConnActive | ConnInactive

datatype packet_status = Moving | Delivered | Dropped

datatype packet_type = TCP | UDP | ICMP

datatype number = Num real | NaN

fun num_mul :: "number \<Rightarrow> number \<Rightarrow> number" where
  "num_mul (Num a) (Num b) = Num (a * b)"
| "num_mul _ _ = NaN"

fun num_add :: "number \<Rightarrow> number \<Rightarrow> number" where
  "num_add (Num a) (Num b) = Num (a + b)"
| "num_add _ _ = NaN"

text \<open>The only division by zero in the code below is \<open>0 / 0\<close>, the average over no
  entries, which is \<open>NaN\<close>; every other divisor is a count that was just incremented.\<close>

fun num_div :: "number \<Rightarrow> number \<Rightarrow> number" where
  "num_div (Num a) (Num b) = (if b = 0 then NaN else Num (a / b))"
| "num_div _ _ = NaN"

text \<open>An optional numeric field read in an arithmetic expression: \<open>undefined\<close> becomes \<open>NaN\<close>.\<close>

fun to_number :: "number option \<Rightarrow> number" where
  "to_number None = NaN"
| "to_number (Some v) = v"

text \<open>\<open>v || 0\<close> on a number: \<open>NaN\<close> and \<open>0\<close> are falsy.\<close>

fun or_zero :: "number \<Rightarrow> number" where
  "or_zero NaN = Num 0"
| "or_zero (Num r) = Num r"

record NetworkNode =
  n_id :: string
  n_type :: node_type
  n_label :: string
  n_x :: number
  n_y :: number
  n_connections :: "string list"
  n_status :: node_status
  n_ip :: "string option"
  n_bandwidth :: "number option"
  n_latency :: "number option"
  n_packetLoss :: "number option"

record Packet =
  p_id :: string
  p_source :: string
  p_destination :: string
  p_data :: string
  p_path :: "string list"
  p_currentPosition :: nat
  p_status :: packet_status
  p_type :: packet_type
  p_timestamp :: nat

record PacketTypes =
  pt_TCP :: nat
  pt_UDP :: nat
  pt_ICMP :: nat

record NodeStat =
  packetsReceived :: nat
  packetsSent :: nat
  ns_bandwidthUsage :: number
  ns_averageLatency :: number

text \<open>\<open>nodeStats\<close> is an object keyed by node id; it is an association list in insertion
  order here, so that the sums over its values can be computed.\<close>

record NetworkStats =
  totalPackets :: nat
  successfulPackets :: nat
  droppedPackets :: nat
  averageLatency :: number
  bandwidthUsage :: number
  packetTypes :: PacketTypes
  nodeStats :: "(string \<times> NodeStat) list"

record Connection =
  c_id :: string
  c_from :: string
  c_to :: string
  c_bandwidth :: number
  c_latency :: number
  c_packetLoss :: number
  c_status :: conn_status

text \<open>\<open>Partial<Connection>\<close>: each field may be absent.\<close>

record ConnectionUpdates =
  u_id :: "string option"
  u_from :: "string option"
  u_to :: "string option"
  u_bandwidth :: "number option"
  u_latency :: "number option"
  u_packetLoss :: "number option"
  u_status :: "conn_status option"

record PacketFilter =
  f_allowedTypes :: "packet_type list option"
  f_maxBandwidth :: "number option"
  f_priority :: "number option"

record NetworkConfig =
  cfg_nodes :: "NetworkNode list"
  cfg_connections :: "Connection list"
  cfg_packetFilters :: "string \<rightharpoonup> PacketFilter"
  cfg_name :: string
  cfg_description :: string
  cfg_date :: string

record SimState =
  nodes :: "NetworkNode list"
  packets :: "Packet list"
  selectedNode :: "string option"
  isSimulating :: bool
  networkStats :: NetworkStats
  packetType :: packet_type
  connections :: "Connection list"
  packetFilters :: "string \<rightharpoonup> PacketFilter"
  savedConfigs :: "NetworkConfig list"

subsection \<open>Decimal rendering of numbers in template strings\<close>

definition digit_char :: "nat \<Rightarrow> char" where
  "digit_char d = ''0123456789'' ! d"

fun show_nat :: "nat \<Rightarrow> string" where
  "show_nat n = (if n < 10 then [digit_char n] else show_nat (n div 10) @ [digit_char (n mod 10)])"

declare show_nat.simps [simp del]

text \<open>\<open>type.charAt(0).toUpperCase() + type.slice(1)\<close> on the three type names.\<close>

fun capitalized :: "node_type \<Rightarrow> string" where
  "capitalized Router = ''Router''"
| "capitalized Switch = ''Switch''"
| "capitalized Host = ''Host''"

subsection \<open>findPath\<close>

text \<open>
  The body of the \<open>for\<close> loop over \<open>currentNode.connections\<close>: a connection that is not
  yet in \<open>visited\<close> is added to it and the path extended by it is pushed on the queue.
\<close>

fun visit_connections ::
  "string list \<Rightarrow> string list \<Rightarrow> string set \<times> string list list \<Rightarrow> string set \<times> string list list" where
  "visit_connections path [] (visited, queue) = (visited, queue)"
| "visit_connections path (connection # rest) (visited, queue) =
     (if connection \<notin> visited
      then visit_connections path rest (insert connection visited, queue @ [path @ [connection]])
      else visit_connections path rest (visited, queue))"

definition all_links :: "NetworkNode list \<Rightarrow> string set" where
  "all_links ns = (\<Union>n \<in> set ns. set (n_connections n))"

lemma visit_connections_measure:
  "finite U \<Longrightarrow> set cs \<subseteq> U \<Longrightarrow> visit_connections path cs (V, Q) = (V', Q') \<Longrightarrow>
   2 * card (U - V') + length Q' \<le> 2 * card (U - V) + length Q"
proof (induction cs arbitrary: V Q)
  case Nil
  then show ?case by simp
next
  case (Cons c cs)
  show ?case
  proof (cases "c \<in> V")
    case True
    with Cons show ?thesis by simp
  next
    case False
    from Cons.prems have cU: "c \<in> U" and sub: "set cs \<subseteq> U" by auto
    from False Cons.prems(3)
    have "visit_connections path cs (insert c V, Q @ [path @ [c]]) = (V', Q')" by simp
    from Cons.IH[OF Cons.prems(1) sub this]
    have le: "2 * card (U - V') + length Q' \<le> 2 * card (U - insert c V) + Suc (length Q)" by simp
    have "c \<in> U - V" using cU False by simp
    then have "card (U - insert c V) < card (U - V)"
      using Cons.prems(1)
      by (metis Diff_insert card_Diff1_less finite_Diff)
    with le show ?thesis by linarith
  qed
qed

text \<open>
  The \<open>while (queue.length > 0)\<close> loop. \<open>queue.shift()\<close> takes the head of the queue,
  \<open>path[path.length - 1]\<close> is its last element. On an empty path that read would give
  \<open>undefined\<close>, which is neither the destination nor the id of a node, so the loop would
  continue; the branch is written out (the queue never holds an empty path).
  The loop ends because every push adds a new id of some link list to \<open>visited\<close>.
\<close>

function bfs_loop :: "string \<Rightarrow> NetworkNode list \<Rightarrow> string set \<times> string list list \<Rightarrow> string list" where
  "bfs_loop destination ns (visited, []) = []"
| "bfs_loop destination ns (visited, path # queue) =
     (if path = [] then bfs_loop destination ns (visited, queue)
      else if last path = destination then path
      else (case find (\<lambda>n. n_id n = last path) ns of
              None \<Rightarrow> bfs_loop destination ns (visited, queue)
            | Some currentNode \<Rightarrow>
                bfs_loop destination ns
                  (visit_connections path (n_connections currentNode) (visited, queue))))"
  by pat_completeness auto
termination
proof (relation "measure (\<lambda>(destination, ns, visited, queue).
                    2 * card (all_links ns - visited) + length queue)", goal_cases)
  case 1
  then show ?case by simp
next
  case (2 destination ns visited path queue)
  then show ?case by simp
next
  case (3 destination ns visited path queue)
  then show ?case by simp
next
  case (4 destination ns visited path queue currentNode)
  obtain V' Q' where vq:
    "visit_connections path (n_connections currentNode) (visited, queue) = (V', Q')"
    by (cases "visit_connections path (n_connections currentNode) (visited, queue)")
  from 4(3) have "currentNode \<in> set ns"
    by (auto simp: find_Some_iff)
  then have sub: "set (n_connections currentNode) \<subseteq> all_links ns"
    by (auto simp: all_links_def)
  have fin: "finite (all_links ns)" by (simp add: all_links_def)
  from visit_connections_measure[OF fin sub vq] show ?case
    by (simp add: vq)
qed

definition findPath :: "string \<Rightarrow> string \<Rightarrow> NetworkNode list \<Rightarrow> string list" where
  "findPath source destination ns = bfs_loop destination ns ({}, [[source]])"

subsection \<open>Sending a packet and the statistics\<close>

definition emptyNodeStat :: NodeStat where
  "emptyNodeStat = \<lparr>packetsReceived = 0, packetsSent = 0,
     ns_bandwidthUsage = Num 0, ns_averageLatency = Num 0\<rparr>"

text \<open>
  \<open>nodeStats\<close> is a plain object, so reading it at a key also finds what every object
  inherits from \<open>Object.prototype\<close>: at the names below the read gives a function or an
  object, which is truthy, although \<open>nodeStats\<close> has no entry of its own there.
\<close>

definition inheritedNames :: "string list" where
  "inheritedNames =
     [''constructor'', ''__proto__'', ''hasOwnProperty'', ''isPrototypeOf'',
      ''propertyIsEnumerable'', ''toLocaleString'', ''toString'', ''valueOf'',
      ''__defineGetter__'', ''__defineSetter__'', ''__lookupGetter__'', ''__lookupSetter__'']"

text \<open>
  \<open>if (!newStats.nodeStats[key]) newStats.nodeStats[key] = {...}\<close>: an entry is created when
  the read gives \<open>undefined\<close>, that is, when the key has no entry and is not an inherited
  name. At an inherited name without an entry no entry is created, and the increments
  that follow are made on the inherited function or object: they leave \<open>nodeStats\<close> as it
  is (\<open>AList.map_entry\<close> changes nothing at a key without an entry). What they write there
  is \<open>NaN\<close>, which is falsy, so it does not change what a later read finds truthy.
\<close>

definition ensureNodeStat :: "string \<Rightarrow> (string \<times> NodeStat) list \<Rightarrow> (string \<times> NodeStat) list" where
  "ensureNodeStat key stats =
     (case map_of stats key of
        Some _ \<Rightarrow> stats
      | None \<Rightarrow> if key \<in> set inheritedNames then stats else AList.update key emptyNodeStat stats)"

fun bumpPacketType :: "packet_type \<Rightarrow> PacketTypes \<Rightarrow> PacketTypes" where
  "bumpPacketType TCP t = t\<lparr>pt_TCP := pt_TCP t + 1\<rparr>"
| "bumpPacketType UDP t = t\<lparr>pt_UDP := pt_UDP t + 1\<rparr>"
| "bumpPacketType ICMP t = t\<lparr>pt_ICMP := pt_ICMP t + 1\<rparr>"

definition updateNetworkStats :: "Connection list \<Rightarrow> Packet \<Rightarrow> NetworkStats \<Rightarrow> NetworkStats" where
  "updateNetworkStats conns packet prev =
     (let src = p_source packet;
          dst = p_destination packet;
          stats1 = ensureNodeStat dst (ensureNodeStat src (nodeStats prev));
          stats2 = AList.map_entry src (\<lambda>s. s\<lparr>packetsSent := packetsSent s + 1\<rparr>) stats1;
          stats3 = AList.map_entry dst (\<lambda>s. s\<lparr>packetsReceived := packetsReceived s + 1\<rparr>) stats2;
          connection = find (\<lambda>c. (c_from c = src \<and> c_to c = dst) \<or> (c_from c = dst \<and> c_to c = src)) conns;
          stats4 =
            (case connection of
               None \<Rightarrow> stats3
             | Some c \<Rightarrow>
                 AList.map_entry src
                   (\<lambda>s. s\<lparr>ns_averageLatency :=
                             num_div
                               (num_add (num_mul (ns_averageLatency s) (Num (real (packetsSent s - 1))))
                                        (c_latency c))
                               (Num (real (packetsSent s))),
                          ns_bandwidthUsage := num_add (ns_bandwidthUsage s) (c_bandwidth c)\<rparr>)
                   stats3)
      in prev\<lparr>totalPackets := totalPackets prev + 1,
              packetTypes := bumpPacketType (p_type packet) (packetTypes prev),
              nodeStats := stats4,
              averageLatency :=
                num_div (foldl (\<lambda>acc s. num_add acc (ns_averageLatency (snd s))) (Num 0) stats4)
                        (Num (real (length stats4))),
              bandwidthUsage :=
                foldl (\<lambda>acc s. num_add acc (ns_bandwidthUsage (snd s))) (Num 0) stats4\<rparr>)"

text \<open>\<open>Date.now()\<close> is the parameter \<open>now\<close>. (The Send Packet button of the smaller
  simulator calls \<open>sendPacket\<close>; the full simulator defines it as below.)\<close>

definition sendPacket :: "string \<Rightarrow> string \<Rightarrow> string \<Rightarrow> nat \<Rightarrow> SimState \<Rightarrow> SimState" where
  "sendPacket source destination dat now st =
     (let path = findPath source destination (nodes st) in
      if length path = 0 then st
      else
        let newPacket = \<lparr>p_id = ''p'' @ show_nat now, p_source = source,
                          p_destination = destination, p_data = dat, p_path = path,
                          p_currentPosition = 0, p_status = Moving,
                          p_type = packetType st, p_timestamp = now\<rparr>
        in st\<lparr>packets := packets st @ [newPacket],
               networkStats := updateNetworkStats (connections st) newPacket (networkStats st)\<rparr>)"

subsection \<open>The tick\<close>

text \<open>The function mapped over the packets by the interval callback.\<close>

definition tickPacket :: "Packet \<Rightarrow> Packet" where
  "tickPacket packet =
     (if p_status packet \<noteq> Moving then packet
      else
        let newPosition = p_currentPosition packet + 1 in
        if newPosition \<ge> length (p_path packet) then packet\<lparr>p_status := Delivered\<rparr>
        else packet\<lparr>p_currentPosition := newPosition\<rparr>)"

definition tick :: "SimState \<Rightarrow> SimState" where
  "tick st = st\<lparr>packets := map tickPacket (packets st)\<rparr>"

subsection \<open>Editing the graph\<close>

text \<open>The test \<open>if (selectedNode)\<close> on a value that is a string or \<open>null\<close>: the empty
  string is falsy as \<open>null\<close> is.\<close>

definition truthy :: "string option \<Rightarrow> bool" where
  "truthy v \<longleftrightarrow> (case v of None \<Rightarrow> False | Some str \<Rightarrow> str \<noteq> [])"

text \<open>
  \<open>handleNodePress\<close>: with a node already selected, pressing another node creates a
  connection between the two and appends each id to the other node's link list; the
  selection is cleared. With no node selected, the pressed node becomes the selection.
\<close>

definition handleNodePress :: "string \<Rightarrow> SimState \<Rightarrow> SimState" where
  "handleNodePress nodeId st =
     (if truthy (selectedNode st) then
        (let sel = the (selectedNode st) in
           if sel \<noteq> nodeId then
             let newConnection = \<lparr>c_id = ''C'' @ show_nat (length (connections st) + 1),
                                  c_from = sel, c_to = nodeId, c_bandwidth = Num 100,
                                  c_latency = Num 1, c_packetLoss = Num 0.05,
                                  c_status = ConnActive\<rparr>
             in st\<lparr>connections := connections st @ [newConnection],
                    nodes := map (\<lambda>node.
                               if n_id node = sel
                               then node\<lparr>n_connections := n_connections node @ [nodeId]\<rparr>
                               else if n_id node = nodeId
                               then node\<lparr>n_connections := n_connections node @ [sel]\<rparr>
                               else node) (nodes st),
                    selectedNode := None\<rparr>
           else st\<lparr>selectedNode := None\<rparr>)
      else st\<lparr>selectedNode := Some nodeId\<rparr>)"

text \<open>Adding a connection between \<open>a\<close> and \<open>b\<close> in the interface: \<open>a\<close> is the selected
  node and \<open>b\<close> is pressed.\<close>

definition addConnection :: "string \<Rightarrow> string \<Rightarrow> SimState \<Rightarrow> SimState" where
  "addConnection a b st = handleNodePress b (st\<lparr>selectedNode := Some a\<rparr>)"

text \<open>Touching a rendered node selects it (and opens its configuration dialog).\<close>

definition touchNode :: "string \<Rightarrow> SimState \<Rightarrow> SimState" where
  "touchNode nodeId st = st\<lparr>selectedNode := Some nodeId\<rparr>"

definition applyUpdates :: "ConnectionUpdates \<Rightarrow> Connection \<Rightarrow> Connection" where
  "applyUpdates u conn =
     \<lparr>c_id = (case u_id u of None \<Rightarrow> c_id conn | Some v \<Rightarrow> v),
      c_from = (case u_from u of None \<Rightarrow> c_from conn | Some v \<Rightarrow> v),
      c_to = (case u_to u of None \<Rightarrow> c_to conn | Some v \<Rightarrow> v),
      c_bandwidth = (case u_bandwidth u of None \<Rightarrow> c_bandwidth conn | Some v \<Rightarrow> v),
      c_latency = (case u_latency u of None \<Rightarrow> c_latency conn | Some v \<Rightarrow> v),
      c_packetLoss = (case u_packetLoss u of None \<Rightarrow> c_packetLoss conn | Some v \<Rightarrow> v),
      c_status = (case u_status u of None \<Rightarrow> c_status conn | Some v \<Rightarrow> v)\<rparr>"

definition updateConnection :: "string \<Rightarrow> ConnectionUpdates \<Rightarrow> SimState \<Rightarrow> SimState" where
  "updateConnection connectionId updates st =
     st\<lparr>connections := map (\<lambda>conn. if c_id conn = connectionId then applyUpdates updates conn else conn)
                            (connections st)\<rparr>"

text \<open>\<open>updatePacketFilter\<close> merges the given fields into the node's filter, which may not
  exist yet.\<close>

definition mergeFilter :: "PacketFilter option \<Rightarrow> PacketFilter \<Rightarrow> PacketFilter" where
  "mergeFilter old updates =
     (let base = (case old of
                    None \<Rightarrow> \<lparr>f_allowedTypes = None, f_maxBandwidth = None, f_priority = None\<rparr>
                  | Some f \<Rightarrow> f)
      in \<lparr>f_allowedTypes = (case f_allowedTypes updates of None \<Rightarrow> f_allowedTypes base | Some v \<Rightarrow> Some v),
          f_maxBandwidth = (case f_maxBandwidth updates of None \<Rightarrow> f_maxBandwidth base | Some v \<Rightarrow> Some v),
          f_priority = (case f_priority updates of None \<Rightarrow> f_priority base | Some v \<Rightarrow> Some v)\<rparr>)"

definition updatePacketFilter :: "string \<Rightarrow> PacketFilter \<Rightarrow> SimState \<Rightarrow> SimState" where
  "updatePacketFilter nodeId updates st =
     st\<lparr>packetFilters := (packetFilters st)(nodeId \<mapsto> mergeFilter (packetFilters st nodeId) updates)\<rparr>"

text \<open>The four text inputs of the node configuration dialog; they are shown when a node
  is selected and act on that node. The numeric ones receive the result of \<open>parseInt\<close>
  or \<open>parseFloat\<close>.\<close>

definition mapSelected :: "(NetworkNode \<Rightarrow> NetworkNode) \<Rightarrow> SimState \<Rightarrow> SimState" where
  "mapSelected f st =
     (if truthy (selectedNode st)
      then st\<lparr>nodes := map (\<lambda>n. if n_id n = the (selectedNode st) then f n else n) (nodes st)\<rparr>
      else st)"

definition setNodeIp :: "string \<Rightarrow> SimState \<Rightarrow> SimState" where
  "setNodeIp txt = mapSelected (\<lambda>n. n\<lparr>n_ip := Some txt\<rparr>)"

definition setNodeBandwidth :: "number \<Rightarrow> SimState \<Rightarrow> SimState" where
  "setNodeBandwidth parsed = mapSelected (\<lambda>n. n\<lparr>n_bandwidth := Some (or_zero parsed)\<rparr>)"

definition setNodeLatency :: "number \<Rightarrow> SimState \<Rightarrow> SimState" where
  "setNodeLatency parsed = mapSelected (\<lambda>n. n\<lparr>n_latency := Some (or_zero parsed)\<rparr>)"

definition setNodePacketLoss :: "number \<Rightarrow> SimState \<Rightarrow> SimState" where
  "setNodePacketLoss parsed = mapSelected (\<lambda>n. n\<lparr>n_packetLoss := Some (or_zero parsed)\<rparr>)"

text \<open>The Add Node dialog, with the chosen type and the typed address.\<close>

definition addNode :: "node_type \<Rightarrow> string \<Rightarrow> SimState \<Rightarrow> SimState" where
  "addNode newNodeType newNodeIp st =
     (let newNode = \<lparr>n_id = ''N'' @ show_nat (length (nodes st) + 1),
                     n_type = newNodeType,
                     n_label = capitalized newNodeType @ '' '' @ show_nat (length (nodes st) + 1),
                     n_x = Num 200, n_y = Num 200, n_connections = [], n_status = Active,
                     n_ip = Some newNodeIp,
                     n_bandwidth = Some (case newNodeType of Router \<Rightarrow> Num 1000 | Switch \<Rightarrow> Num 100 | Host \<Rightarrow> Num 10),
                     n_latency = Some (case newNodeType of Router \<Rightarrow> Num 5 | Switch \<Rightarrow> Num 1 | Host \<Rightarrow> Num 0.5),
                     n_packetLoss = Some (case newNodeType of Router \<Rightarrow> Num 0.1 | Switch \<Rightarrow> Num 0.05 | Host \<Rightarrow> Num 0)\<rparr>
      in st\<lparr>nodes := nodes st @ [newNode]\<rparr>)"

subsection \<open>Topology presets\<close>

datatype topology = Star | Mesh | Bus

definition routerR1 :: "number \<Rightarrow> number \<Rightarrow> NetworkNode" where
  "routerR1 x y = \<lparr>n_id = ''R1'', n_type = Router, n_label = ''Router 1'', n_x = x, n_y = y,
     n_connections = [], n_status = Active, n_ip = Some ''192.168.1.1'',
     n_bandwidth = Some (Num 1000), n_latency = Some (Num 5), n_packetLoss = Some (Num 0.1)\<rparr>"

definition typeLetter :: "node_type \<Rightarrow> string" where
  "typeLetter t = (case t of Router \<Rightarrow> ''R'' | Switch \<Rightarrow> ''S'' | Host \<Rightarrow> ''H'')"

definition typeBandwidth :: "node_type \<Rightarrow> number" where
  "typeBandwidth t = (case t of Router \<Rightarrow> Num 1000 | Switch \<Rightarrow> Num 100 | Host \<Rightarrow> Num 10)"

definition typeLatency :: "node_type \<Rightarrow> number" where
  "typeLatency t = (case t of Router \<Rightarrow> Num 5 | Switch \<Rightarrow> Num 1 | Host \<Rightarrow> Num 0.5)"

definition typePacketLoss :: "node_type \<Rightarrow> number" where
  "typePacketLoss t = (case t of Router \<Rightarrow> Num 0.1 | Switch \<Rightarrow> Num 0.05 | Host \<Rightarrow> Num 0)"

text \<open>A node on the circle of the star and mesh layouts; \<open>ipOffset\<close> is 2 for the star and
  1 for the mesh.\<close>

definition circleNode :: "nat \<Rightarrow> string list \<Rightarrow> nat \<Rightarrow> node_type \<Rightarrow> NetworkNode" where
  "circleNode ipOffset links index t =
     \<lparr>n_id = typeLetter t @ show_nat (index + 1),
      n_type = t,
      n_label = capitalized t @ '' '' @ show_nat (index + 1),
      n_x = Num (200 + 150 * cos (real index * 2 * pi / 6)),
      n_y = Num (200 + 150 * sin (real index * 2 * pi / 6)),
      n_connections = links, n_status = Active,
      n_ip = Some (''192.168.1.'' @ show_nat (index + ipOffset)),
      n_bandwidth = Some (typeBandwidth t), n_latency = Some (typeLatency t),
      n_packetLoss = Some (typePacketLoss t)\<rparr>"

definition busNode :: "nat \<Rightarrow> node_type \<Rightarrow> NetworkNode" where
  "busNode index t =
     \<lparr>n_id = typeLetter t @ show_nat (index + 1),
      n_type = t,
      n_label = capitalized t @ '' '' @ show_nat (index + 1),
      n_x = Num (50 + 100 * (real index + 1)),
      n_y = Num (200 + (if index mod 2 = 0 then - 50 else 50)),
      n_connections = [''R1''], n_status = Active,
      n_ip = Some (''192.168.1.'' @ show_nat (index + 2)),
      n_bandwidth = Some (typeBandwidth t), n_latency = Some (typeLatency t),
      n_packetLoss = Some (typePacketLoss t)\<rparr>"

definition createStar :: "NetworkNode list" where
  "createStar =
     (let others = map (\<lambda>(index, t). circleNode 2 [''R1''] index t)
                       (enumerate 0 [Switch, Switch, Host, Host, Host, Host])
      in (routerR1 (Num 200) (Num 200))\<lparr>n_connections := map n_id others\<rparr> # others)"

definition createMesh :: "NetworkNode list" where
  "createMesh =
     (let ns = map (\<lambda>(index, t). circleNode 1 [] index t)
                   (enumerate 0 [Router, Router, Switch, Switch, Host, Host])
      in map (\<lambda>(i, node).
                node\<lparr>n_connections := map (\<lambda>(j, n). n_id n) (filter (\<lambda>(j, n). i \<noteq> j) (enumerate 0 ns))\<rparr>)
             (enumerate 0 ns))"

definition createBus :: "NetworkNode list" where
  "createBus =
     (let others = map (\<lambda>(index, t). busNode index t)
                       (enumerate 0 [Switch, Host, Switch, Host, Host, Host])
      in (routerR1 (Num 50) (Num 200))\<lparr>n_connections := map n_id others\<rparr> # others)"

fun create :: "topology \<Rightarrow> NetworkNode list" where
  "create Star = createStar"
| "create Mesh = createMesh"
| "create Bus = createBus"

definition applyTopology :: "topology \<Rightarrow> SimState \<Rightarrow> SimState" where
  "applyTopology t st = st\<lparr>nodes := create t, connections := []\<rparr>"

subsection \<open>Scenarios\<close>

datatype scenario = Normal | Congestion | Failure | Security

record ScenarioResult =
  r_nodes :: "NetworkNode list"
  r_connections :: "Connection list"
  r_packetFilters :: "string \<rightharpoonup> PacketFilter"

definition normalSetup :: "NetworkNode list \<Rightarrow> Connection list \<Rightarrow> ScenarioResult" where
  "normalSetup ns conns =
     \<lparr>r_nodes = map (\<lambda>node. node\<lparr>n_status := Active\<rparr>) ns,
      r_connections = map (\<lambda>conn. conn\<lparr>c_status := ConnActive\<rparr>) conns,
      r_packetFilters = Map.empty\<rparr>"

definition congestionSetup :: "NetworkNode list \<Rightarrow> Connection list \<Rightarrow> ScenarioResult" where
  "congestionSetup ns conns =
     \<lparr>r_nodes = map (\<lambda>node. node\<lparr>n_status := Active,
                                   n_latency := Some (num_mul (to_number (n_latency node)) (Num 3)),
                                   n_packetLoss := Some (num_mul (to_number (n_packetLoss node)) (Num 2))\<rparr>) ns,
      r_connections = map (\<lambda>conn. conn\<lparr>c_status := ConnActive,
                                         c_latency := num_mul (c_latency conn) (Num 3),
                                         c_packetLoss := num_mul (c_packetLoss conn) (Num 2),
                                         c_bandwidth := num_mul (c_bandwidth conn) (Num 0.5)\<rparr>) conns,
      r_packetFilters = Map.empty\<rparr>"

text \<open>\<open>criticalNodes.sort(() => Math.random() - 0.5)\<close> is the parameter \<open>shuffle\<close>: the
  random reordering is the only input of the scenarios besides the graph.\<close>

definition failureSetup ::
  "(NetworkNode list \<Rightarrow> NetworkNode list) \<Rightarrow> NetworkNode list \<Rightarrow> Connection list \<Rightarrow> ScenarioResult" where
  "failureSetup shuffle ns conns =
     (let criticalNodes = filter (\<lambda>n. n_type n = Router \<or> n_type n = Switch) ns;
          failedNodes = take 2 (shuffle criticalNodes)
      in \<lparr>r_nodes = map (\<lambda>node. node\<lparr>n_status :=
                              (if \<exists>n \<in> set failedNodes. n_id n = n_id node then Inactive else Active)\<rparr>) ns,
          r_connections = map (\<lambda>conn. conn\<lparr>c_status :=
                              (if \<exists>n \<in> set failedNodes. n_id n = c_from conn \<or> n_id n = c_to conn
                               then ConnInactive else ConnActive)\<rparr>) conns,
          r_packetFilters = Map.empty\<rparr>)"

definition securitySetup :: "NetworkNode list \<Rightarrow> Connection list \<Rightarrow> ScenarioResult" where
  "securitySetup ns conns =
     \<lparr>r_nodes = map (\<lambda>node. node\<lparr>n_status := Active,
                                   n_bandwidth := Some (num_mul (to_number (n_bandwidth node)) (Num 0.7))\<rparr>) ns,
      r_connections = map (\<lambda>conn. conn\<lparr>c_status := ConnActive,
                                         c_bandwidth := num_mul (c_bandwidth conn) (Num 0.7)\<rparr>) conns,
      r_packetFilters =
        foldl (\<lambda>filters node.
                 filters(n_id node \<mapsto>
                   \<lparr>f_allowedTypes = Some (case n_type node of
                                             Router \<Rightarrow> [TCP, UDP, ICMP]
                                           | Switch \<Rightarrow> [TCP, UDP]
                                           | Host \<Rightarrow> [TCP]),
                    f_maxBandwidth = Some (num_mul (to_number (n_bandwidth node)) (Num 0.7)),
                    f_priority = Some (case n_type node of
                                         Router \<Rightarrow> Num 3 | Switch \<Rightarrow> Num 2 | Host \<Rightarrow> Num 1)\<rparr>))
              Map.empty ns\<rparr>"

fun scenarioSetup ::
  "(NetworkNode list \<Rightarrow> NetworkNode list) \<Rightarrow> scenario \<Rightarrow> NetworkNode list \<Rightarrow> Connection list \<Rightarrow> ScenarioResult" where
  "scenarioSetup shuffle Normal ns conns = normalSetup ns conns"
| "scenarioSetup shuffle Congestion ns conns = congestionSetup ns conns"
| "scenarioSetup shuffle Failure ns conns = failureSetup shuffle ns conns"
| "scenarioSetup shuffle Security ns conns = securitySetup ns conns"

definition applyScenario ::
  "(NetworkNode list \<Rightarrow> NetworkNode list) \<Rightarrow> scenario \<Rightarrow> SimState \<Rightarrow> SimState" where
  "applyScenario shuffle sc st =
     (let r = scenarioSetup shuffle sc (nodes st) (connections st)
      in st\<lparr>nodes := r_nodes r, connections := r_connections r, packetFilters := r_packetFilters r\<rparr>)"

subsection \<open>Saved configurations\<close>

text \<open>The Save button is disabled while \<open>configName.trim()\<close> is empty (the white space
  of ASCII is modelled).\<close>

definition blank :: "string \<Rightarrow> bool" where
  "blank str \<longleftrightarrow> (\<forall>c \<in> set str. c \<in> set [CHR '' '', CHR 0x09, CHR 0x0A, CHR 0x0B, CHR 0x0C, CHR 0x0D])"

definition saveCurrentConfig :: "string \<Rightarrow> string \<Rightarrow> string \<Rightarrow> SimState \<Rightarrow> SimState" where
  "saveCurrentConfig configName configDescription date st =
     st\<lparr>savedConfigs := savedConfigs st @
          [\<lparr>cfg_nodes = nodes st, cfg_connections = connections st,
            cfg_packetFilters = packetFilters st, cfg_name = configName,
            cfg_description = configDescription, cfg_date = date\<rparr>]\<rparr>"

definition loadConfig :: "NetworkConfig \<Rightarrow> SimState \<Rightarrow> SimState" where
  "loadConfig config st =
     st\<lparr>nodes := cfg_nodes config, connections := cfg_connections config,
        packetFilters := cfg_packetFilters config\<rparr>"

definition deleteConfig :: "string \<Rightarrow> SimState \<Rightarrow> SimState" where
  "deleteConfig configName st =
     st\<lparr>savedConfigs := filter (\<lambda>c. cfg_name c \<noteq> configName) (savedConfigs st)\<rparr>"

subsection \<open>The screen as a transition system\<close>

text \<open>
  Every handler of the screen that changes the graph, the packets, the statistics or the
  state they read is an event. The interval callback exists only while the simulation is
  running; a saved configuration is loaded by its position in the list shown. Each state
  updater is taken to run once.
\<close>

datatype event =
    PressCanvasNode string
  | TouchNode string
  | UpdateConnection string ConnectionUpdates
  | UpdatePacketFilter string PacketFilter
  | SendPacket string string string nat
  | IntervalFires
  | ToggleSimulation
  | SetPacketType packet_type
  | SetNodeIp string
  | SetNodeBandwidth number
  | SetNodeLatency number
  | SetNodePacketLoss number
  | AddNode node_type string
  | ApplyTopology topology
  | ApplyScenario scenario "NetworkNode list \<Rightarrow> NetworkNode list"
  | SaveConfig string string string
  | LoadConfig nat
  | DeleteConfig string

fun step :: "event \<Rightarrow> SimState \<Rightarrow> SimState" where
  "step (PressCanvasNode nodeId) st = handleNodePress nodeId st"
| "step (TouchNode nodeId) st = touchNode nodeId st"
| "step (UpdateConnection connectionId updates) st = updateConnection connectionId updates st"
| "step (UpdatePacketFilter nodeId updates) st = updatePacketFilter nodeId updates st"
| "step (SendPacket source destination dat now) st = sendPacket source destination dat now st"
| "step IntervalFires st = (if isSimulating st then tick st else st)"
| "step ToggleSimulation st = st\<lparr>isSimulating := \<not> isSimulating st\<rparr>"
| "step (SetPacketType t) st = st\<lparr>packetType := t\<rparr>"
| "step (SetNodeIp txt) st = setNodeIp txt st"
| "step (SetNodeBandwidth parsed) st = setNodeBandwidth parsed st"
| "step (SetNodeLatency parsed) st = setNodeLatency parsed st"
| "step (SetNodePacketLoss parsed) st = setNodePacketLoss parsed st"
| "step (AddNode t ip) st = addNode t ip st"
| "step (ApplyTopology t) st = applyTopology t st"
| "step (ApplyScenario sc shuffle) st = applyScenario shuffle sc st"
| "step (SaveConfig configName configDescription date) st =
     (if blank configName then st else saveCurrentConfig configName configDescription date st)"
| "step (LoadConfig i) st =
     (if i < length (savedConfigs st) then loadConfig (savedConfigs st ! i) st else st)"
| "step (DeleteConfig configName) st = deleteConfig configName st"

definition run :: "event list \<Rightarrow> SimState \<Rightarrow> SimState" where
  "run es st = fold step es st"

text \<open>\<open>n\<close> ticks in a row.\<close>

definition ticks :: "nat \<Rightarrow> SimState \<Rightarrow> SimState" where
  "ticks n st = (tick ^^ n) st"

subsection \<open>The initial state of the screen\<close>

definition initialNode ::
  "string \<Rightarrow> node_type \<Rightarrow> string \<Rightarrow> real \<Rightarrow> real \<Rightarrow> string list \<Rightarrow> string \<Rightarrow> NetworkNode" where
  "initialNode i t l x y links ip =
     \<lparr>n_id = i, n_type = t, n_label = l, n_x = Num x, n_y = Num y, n_connections = links,
      n_status = Active, n_ip = Some ip, n_bandwidth = Some (typeBandwidth t),
      n_latency = Some (typeLatency t), n_packetLoss = Some (typePacketLoss t)\<rparr>"

definition initialNodes :: "NetworkNode list" where
  "initialNodes =
     [initialNode ''R1'' Router ''Router 1'' 100 100 [''S1'', ''R2''] ''192.168.1.1'',
      initialNode ''R2'' Router ''Router 2'' 300 100 [''R1'', ''S2''] ''192.168.1.2'',
      initialNode ''S1'' Switch ''Switch 1'' 100 250 [''R1'', ''H1'', ''H2''] ''192.168.1.3'',
      initialNode ''S2'' Switch ''Switch 2'' 300 250 [''R2'', ''H3'', ''H4''] ''192.168.1.4'',
      initialNode ''H1'' Host ''Host 1'' 50 400 [''S1''] ''192.168.1.5'',
      initialNode ''H2'' Host ''Host 2'' 150 400 [''S1''] ''192.168.1.6'',
      initialNode ''H3'' Host ''Host 3'' 250 400 [''S2''] ''192.168.1.7'',
      initialNode ''H4'' Host ''Host 4'' 350 400 [''S2''] ''192.168.1.8'']"

definition initialStats :: NetworkStats where
  "initialStats =
     \<lparr>totalPackets = 0, successfulPackets = 0, droppedPackets = 0, averageLatency = Num 0,
      bandwidthUsage = Num 0, packetTypes = \<lparr>pt_TCP = 0, pt_UDP = 0, pt_ICMP = 0\<rparr>,
      nodeStats = []\<rparr>"

definition initialState :: SimState where
  "initialState =
     \<lparr>nodes = initialNodes, packets = [], selectedNode = None, isSimulating = False,
      networkStats = initialStats, packetType = TCP, connections = [],
      packetFilters = Map.empty, savedConfigs = []\<rparr>"

subsection \<open>Example states\<close>

text \<open>The line topology A, B, C: two hosts joined by a switch.\<close>

definition lineNodes :: "NetworkNode list" where
  "lineNodes =
     [initialNode ''A'' Host ''Host A'' 50 100 [''B''] ''10.0.0.1'',
      initialNode ''B'' Switch ''Switch B'' 150 100 [''A'', ''C''] ''10.0.0.2'',
      initialNode ''C'' Host ''Host C'' 250 100 [''B''] ''10.0.0.3'']"

definition lineState :: SimState where
  "lineState = initialState\<lparr>nodes := lineNodes\<rparr>"

text \<open>The line topology with a fourth node that has no connection.\<close>

definition isolatedState :: SimState where
  "isolatedState = addNode Host ''10.0.0.4'' lineState"



text \<open>A graph with two shortest walks from S to T, through X and through Y.\<close>

definition diamondNodes :: "NetworkNode list" where
  "diamondNodes =
     [initialNode ''S'' Router ''Router S'' 150 50 [''X'', ''Y''] ''10.0.1.1'',
      initialNode ''X'' Switch ''Switch X'' 50 150 [''S'', ''T''] ''10.0.1.2'',
      initialNode ''Y'' Switch ''Switch Y'' 250 150 [''S'', ''T''] ''10.0.1.3'',
      initialNode ''T'' Host ''Host T'' 150 250 [''X'', ''Y''] ''10.0.1.4'']"

subsection \<open>Auxiliary notions\<close>

text \<open>What holds of every packet of the screen.\<close>

definition packet_ok :: "Packet \<Rightarrow> bool" where
  "packet_ok p \<longleftrightarrow>
     p_currentPosition p < length (p_path p) \<and> p_status p \<noteq> Dropped \<and>
     (p_status p = Delivered \<longrightarrow> p_currentPosition p = length (p_path p) - 1)"

text \<open>The received counter of a node in the statistics (0 when the node has no entry).\<close>

definition receivedCount :: "NetworkStats \<Rightarrow> string \<Rightarrow> nat" where
  "receivedCount stats key =
     (case map_of (nodeStats stats) key of None \<Rightarrow> 0 | Some s \<Rightarrow> packetsReceived s)"

text \<open>A new list of nodes keeps the nodes of the old one with all their links.\<close>

definition links_kept :: "NetworkNode list \<Rightarrow> NetworkNode list \<Rightarrow> bool" where
  "links_kept old new \<longleftrightarrow>
     length old \<le> length new \<and>
     (\<forall>i < length old. n_id (new ! i) = n_id (old ! i) \<and>
        set (n_connections (old ! i)) \<subseteq> set (n_connections (new ! i)))"

text \<open>The initial screen with a connection from R1 to H1, under the congestion scenario.\<close>

definition congestedState :: SimState where
  "congestedState = applyScenario id Congestion (addConnection ''R1'' ''H1'' initialState)"

subsection \<open>The graph that findPath searches\<close>

text \<open>
  The link lists give a directed adjacency: the neighbours of an id are the connections of
  the first node with that id (the node that \<open>nodes.find\<close> returns), and an id that no
  node carries has none.
\<close>

definition adjacent :: "NetworkNode list \<Rightarrow> string \<Rightarrow> string list" where
  "adjacent ns u = (case find (\<lambda>n. n_id n = u) ns of None \<Rightarrow> [] | Some n \<Rightarrow> n_connections n)"

text \<open>A walk is a non-empty sequence of ids in which each id is followed by one of its
  neighbours; it has one hop less than it has ids.\<close>

fun is_walk :: "NetworkNode list \<Rightarrow> string list \<Rightarrow> bool" where
  "is_walk ns [] \<longleftrightarrow> False"
| "is_walk ns [u] \<longleftrightarrow> True"
| "is_walk ns (u # v # rest) \<longleftrightarrow> v \<in> set (adjacent ns u) \<and> is_walk ns (v # rest)"

definition walk :: "NetworkNode list \<Rightarrow> string \<Rightarrow> string \<Rightarrow> string list \<Rightarrow> bool" where
  "walk ns s d p \<longleftrightarrow> is_walk ns p \<and> hd p = s \<and> last p = d"

definition reachable :: "NetworkNode list \<Rightarrow> string \<Rightarrow> string \<Rightarrow> bool" where
  "reachable ns s d \<longleftrightarrow> (\<exists>p. walk ns s d p)"

text \<open>The hop-count distance: the least number of hops of a walk from \<open>s\<close> to \<open>d\<close>.\<close>

definition distance :: "NetworkNode list \<Rightarrow> string \<Rightarrow> string \<Rightarrow> nat" where
  "distance ns s d = (LEAST k. \<exists>p. walk ns s d p \<and> length p = Suc k)"

text \<open>
  The order in which neighbours are explored: a walk is described by the positions, in
  the link list of each of its ids, of the id that follows (the first position, where a
  link list repeats an id), and walks of the same length are compared by these position
  lists, lexicographically.
\<close>

fun index_of :: "'a list \<Rightarrow> 'a \<Rightarrow> nat" where
  "index_of [] x = 0"
| "index_of (y # ys) x = (if x = y then 0 else Suc (index_of ys x))"

fun link_positions :: "NetworkNode list \<Rightarrow> string list \<Rightarrow> nat list" where
  "link_positions ns [] = []"
| "link_positions ns [u] = []"
| "link_positions ns (u # v # rest) = index_of (adjacent ns u) v # link_positions ns (v # rest)"

subsection \<open>The search, level by level\<close>

text \<open>The connections of a link list that are pushed, given what is visited: those not
  visited, each at its first occurrence.\<close>

fun fresh :: "string set \<Rightarrow> string list \<Rightarrow> string list" where
  "fresh V [] = []"
| "fresh V (c # cs) = (if c \<in> V then fresh V cs else c # fresh (insert c V) cs)"

text \<open>What the loop has pushed and visited once it has taken all the paths \<open>P\<close> off the
  queue, starting with \<open>V\<close> visited.\<close>

fun level_paths :: "NetworkNode list \<Rightarrow> string list list \<Rightarrow> string set \<Rightarrow> string list list" where
  "level_paths ns [] V = []"
| "level_paths ns (p # P) V =
     map (\<lambda>c. p @ [c]) (fresh V (adjacent ns (last p))) @
     level_paths ns P (V \<union> set (adjacent ns (last p)))"

definition level_visited :: "NetworkNode list \<Rightarrow> string list list \<Rightarrow> string set \<Rightarrow> string set" where
  "level_visited ns P V = V \<union> (\<Union>p \<in> set P. set (adjacent ns (last p)))"

text \<open>
  The state of the search at the start of level \<open>k\<close>: the queue \<open>P\<close> holds walks of \<open>k\<close>
  hops from the source, in increasing link order, each least in that order among the
  walks of \<open>k\<close> hops to its end; \<open>V\<close> holds the ids that a walk of between one and \<open>k\<close> hops
  reaches; and every id first reached (by a walk of at least one hop) in \<open>k\<close> hops ends a
  path of \<open>P\<close>.
\<close>

definition level_inv ::
  "NetworkNode list \<Rightarrow> string \<Rightarrow> nat \<Rightarrow> string list list \<Rightarrow> string set \<Rightarrow> bool" where
  "level_inv ns s k P V \<longleftrightarrow>
     (\<forall>p \<in> set P. walk ns s (last p) p \<and> length p = Suc k) \<and>
     V = {v. \<exists>q. walk ns s v q \<and> 2 \<le> length q \<and> length q \<le> Suc k} \<and>
     (\<forall>v q. walk ns s v q \<and> length q = Suc k \<and>
            (\<forall>q'. walk ns s v q' \<longrightarrow> length q' < 2 \<or> Suc k \<le> length q') \<longrightarrow> v \<in> last ` set P) \<and>
     sorted_wrt (\<lambda>p q. link_positions ns p < link_positions ns q) P \<and>
     (\<forall>p \<in> set P. \<forall>q. walk ns s (last p) q \<and> length q = Suc k \<longrightarrow>
            link_positions ns p \<le> link_positions ns q)"

section \<open>Packets and ticks\<close>

subsection \<open>The line topology\<close>

lemma findPath_line: "findPath ''A'' ''C'' lineNodes = [''A'', ''B'', ''C'']"
  by (simp add: findPath_def lineNodes_def initialNode_def)

lemma packets_sendPacket_line:
  "packets (sendPacket ''A'' ''C'' dat now lineState) =
     [\<lparr>p_id = ''p'' @ show_nat now, p_source = ''A'', p_destination = ''C'', p_data = dat,
       p_path = [''A'', ''B'', ''C''], p_currentPosition = 0, p_status = Moving,
       p_type = TCP, p_timestamp = now\<rparr>]"
  by (simp add: sendPacket_def lineState_def initialState_def findPath_line Let_def)

lemma packets_tick: "packets (tick st) = map tickPacket (packets st)"
  by (simp add: tick_def)

lemma packets_ticks: "packets (ticks n st) = map (tickPacket ^^ n) (packets st)"
  by (induction n arbitrary: st) (simp_all add: ticks_def packets_tick)

text \<open>
  Claim C2, as the code has it. In the line topology A, B, C (A and C hosts, B a switch,
  links A-B and B-C), \<open>sendPacket(A, C, data)\<close> creates one packet with path [A, B, C],
  position 0 and status moving. One tick later it is at position 1, moving; two ticks
  later at position 2 and still moving; the third tick leaves the position at 2 and sets
  the status to delivered. The tick marks a packet delivered when the position after the
  last index would be reached, one tick after the packet has arrived at the last index.
\<close>

theorem line_scenario:
  "(let st0 = sendPacket ''A'' ''C'' dat now lineState;
        p0 = packets st0 ! 0; p1 = packets (ticks 1 st0) ! 0;
        p2 = packets (ticks 2 st0) ! 0; p3 = packets (ticks 3 st0) ! 0
    in length (packets st0) = 1 \<and>
       p_path p0 = [''A'', ''B'', ''C''] \<and> p_currentPosition p0 = 0 \<and> p_status p0 = Moving \<and>
       p_currentPosition p1 = 1 \<and> p_status p1 = Moving \<and>
       p_currentPosition p2 = 2 \<and> p_status p2 = Moving \<and>
       p_currentPosition p3 = 2 \<and> p_status p3 = Delivered)"
  by (simp add: packets_ticks packets_sendPacket_line tickPacket_def eval_nat_numeral Let_def)

text \<open>
  Claim C2 as stated fails: after the second tick the packet is at position 2 and its status
  is still moving, not delivered.
\<close>

theorem line_two_ticks_still_moving:
  "p_currentPosition (packets (ticks 2 (sendPacket ''A'' ''C'' ''data'' 0 lineState)) ! 0) = 2 \<and>
   p_status (packets (ticks 2 (sendPacket ''A'' ''C'' ''data'' 0 lineState)) ! 0) = Moving"
  by (simp add: packets_ticks packets_sendPacket_line tickPacket_def eval_nat_numeral Let_def)

subsection \<open>What the events do to the packets\<close>

lemma packets_sendPacket:
  "packets (sendPacket s d dat now st) =
     (if findPath s d (nodes st) = [] then packets st
      else packets st @
        [\<lparr>p_id = ''p'' @ show_nat now, p_source = s, p_destination = d, p_data = dat,
          p_path = findPath s d (nodes st), p_currentPosition = 0, p_status = Moving,
          p_type = packetType st, p_timestamp = now\<rparr>])"
  by (simp add: sendPacket_def Let_def)

lemma packets_mapSelected: "packets (mapSelected f st) = packets st"
  by (simp add: mapSelected_def)

lemma packets_handleNodePress: "packets (handleNodePress i st) = packets st"
  by (simp add: handleNodePress_def Let_def)

lemma packets_step_other:
  "(\<forall>s d dat now. e \<noteq> SendPacket s d dat now) \<Longrightarrow> e \<noteq> IntervalFires \<Longrightarrow>
   packets (step e st) = packets st"
  by (cases e)
     (simp_all add: packets_handleNodePress touchNode_def updateConnection_def
        updatePacketFilter_def setNodeIp_def setNodeBandwidth_def setNodeLatency_def
        setNodePacketLoss_def packets_mapSelected addNode_def applyTopology_def
        applyScenario_def saveCurrentConfig_def loadConfig_def deleteConfig_def Let_def)

lemma packets_step_cases:
  "packets (step e st) = packets st \<or>
   packets (step e st) = map tickPacket (packets st) \<or>
   (\<exists>s d dat now. findPath s d (nodes st) \<noteq> [] \<and>
      packets (step e st) = packets st @
        [\<lparr>p_id = ''p'' @ show_nat now, p_source = s, p_destination = d, p_data = dat,
          p_path = findPath s d (nodes st), p_currentPosition = 0, p_status = Moving,
          p_type = packetType st, p_timestamp = now\<rparr>])"
proof -
  consider (send) s d dat now where "e = SendPacket s d dat now"
    | (tick) "e = IntervalFires"
    | (other) "\<forall>s d dat now. e \<noteq> SendPacket s d dat now" "e \<noteq> IntervalFires"
    by (cases e) auto
  then show ?thesis
  proof cases
    case send
    then show ?thesis by (auto simp: packets_sendPacket)
  next
    case tick
    then show ?thesis by (simp add: packets_tick)
  next
    case other
    then show ?thesis by (simp add: packets_step_other)
  qed
qed

lemma tickPacket_frame:
  "p_id (tickPacket p) = p_id p" "p_source (tickPacket p) = p_source p"
  "p_destination (tickPacket p) = p_destination p" "p_data (tickPacket p) = p_data p"
  "p_path (tickPacket p) = p_path p" "p_type (tickPacket p) = p_type p"
  "p_timestamp (tickPacket p) = p_timestamp p"
  by (simp_all add: tickPacket_def Let_def)

lemma tickPacket_terminal: "p_status p \<noteq> Moving \<Longrightarrow> tickPacket p = p"
  by (simp add: tickPacket_def)

lemma tickPacket_funpow_terminal: "p_status p \<noteq> Moving \<Longrightarrow> (tickPacket ^^ n) p = p"
  by (induction n) (simp_all add: tickPacket_terminal)

lemma tickPacket_status:
  "p_status (tickPacket p) = p_status p \<or> (p_status p = Moving \<and> p_status (tickPacket p) = Delivered)"
  by (simp add: tickPacket_def Let_def)

lemma length_packets_step: "length (packets st) \<le> length (packets (step e st))"
  using packets_step_cases[of e st] by auto

lemma step_keeps_path:
  "i < length (packets st) \<Longrightarrow> p_path (packets (step e st) ! i) = p_path (packets st ! i)"
  using packets_step_cases[of e st] by (auto simp: nth_append tickPacket_frame)

lemma step_status:
  "i < length (packets st) \<Longrightarrow>
   p_status (packets (step e st) ! i) = p_status (packets st ! i) \<or>
   (p_status (packets st ! i) = Moving \<and> p_status (packets (step e st) ! i) = Delivered)"
  using packets_step_cases[of e st] tickPacket_status[of "packets st ! i"]
  by (auto simp: nth_append)

lemma run_Nil: "run [] st = st" by (simp add: run_def)
lemma run_Cons: "run (e # es) st = run es (step e st)" by (simp add: run_def)
lemma run_snoc: "run (es @ [e]) st = step e (run es st)" by (simp add: run_def)

lemma length_packets_run: "length (packets st) \<le> length (packets (run es st))"
proof (induction es arbitrary: st)
  case Nil
  then show ?case by (simp add: run_Nil)
next
  case (Cons e es)
  have "length (packets st) \<le> length (packets (step e st))" by (rule length_packets_step)
  also have "\<dots> \<le> length (packets (run es (step e st)))" by (rule Cons.IH)
  finally show ?case by (simp add: run_Cons)
qed

lemma run_keeps_path:
  "i < length (packets st) \<Longrightarrow> p_path (packets (run es st) ! i) = p_path (packets st ! i)"
proof (induction es arbitrary: st)
  case Nil
  then show ?case by (simp add: run_Nil)
next
  case (Cons e es)
  from Cons.prems length_packets_step[of st e]
  have "i < length (packets (step e st))" by simp
  from Cons.IH[OF this] step_keeps_path[OF Cons.prems, of e]
  show ?case by (simp add: run_Cons)
qed

lemma packet_ok_tick: "packet_ok p \<Longrightarrow> packet_ok (tickPacket p)"
  by (auto simp: packet_ok_def tickPacket_def Let_def)

lemma packet_ok_step:
  "\<forall>p \<in> set (packets st). packet_ok p \<Longrightarrow> \<forall>p \<in> set (packets (step e st)). packet_ok p"
  using packets_step_cases[of e st]
  by (auto simp: packet_ok_tick) (simp add: packet_ok_def)

lemma packet_ok_run:
  "\<forall>p \<in> set (packets st). packet_ok p \<Longrightarrow> \<forall>p \<in> set (packets (run es st)). packet_ok p"
proof (induction es arbitrary: st)
  case Nil
  then show ?case by (simp add: run_Nil)
next
  case (Cons e es)
  from Cons.IH[OF packet_ok_step[OF Cons.prems]] show ?case by (simp add: run_Cons)
qed

subsection \<open>Statuses and statistics\<close>

lemma not_dropped_step:
  "\<forall>p \<in> set (packets st). p_status p \<noteq> Dropped \<Longrightarrow>
   \<forall>p \<in> set (packets (step e st)). p_status p \<noteq> Dropped"
  using packets_step_cases[of e st]
  by (auto simp: tickPacket_def Let_def)

lemma not_dropped_run:
  "\<forall>p \<in> set (packets st). p_status p \<noteq> Dropped \<Longrightarrow>
   \<forall>p \<in> set (packets (run es st)). p_status p \<noteq> Dropped"
proof (induction es arbitrary: st)
  case Nil
  then show ?case by (simp add: run_Nil)
next
  case (Cons e es)
  from Cons.IH[OF not_dropped_step[OF Cons.prems]] show ?case by (simp add: run_Cons)
qed

lemma run_terminal:
  "i < length (packets st) \<Longrightarrow> p_status (packets st ! i) \<noteq> Moving \<Longrightarrow>
   p_status (packets (run es st) ! i) = p_status (packets st ! i)"
proof (induction es arbitrary: st)
  case Nil
  then show ?case by (simp add: run_Nil)
next
  case (Cons e es)
  from Cons.prems(1) length_packets_step[of st e]
  have len: "i < length (packets (step e st))" by simp
  from step_status[OF Cons.prems(1), of e] Cons.prems(2)
  have same: "p_status (packets (step e st) ! i) = p_status (packets st ! i)" by auto
  with Cons.prems(2) have "p_status (packets (step e st) ! i) \<noteq> Moving" by simp
  from Cons.IH[OF len this] same show ?case by (simp add: run_Cons)
qed

lemma networkStats_mapSelected: "networkStats (mapSelected f st) = networkStats st"
  by (simp add: mapSelected_def)

lemma networkStats_handleNodePress: "networkStats (handleNodePress i st) = networkStats st"
  by (simp add: handleNodePress_def Let_def)

lemma networkStats_step_other:
  "(\<forall>s d dat now. e \<noteq> SendPacket s d dat now) \<Longrightarrow> networkStats (step e st) = networkStats st"
  by (cases e)
     (simp_all add: networkStats_handleNodePress touchNode_def updateConnection_def
        updatePacketFilter_def setNodeIp_def setNodeBandwidth_def setNodeLatency_def
        setNodePacketLoss_def networkStats_mapSelected addNode_def applyTopology_def
        applyScenario_def saveCurrentConfig_def loadConfig_def deleteConfig_def tick_def Let_def)

lemma updateNetworkStats_counters:
  "successfulPackets (updateNetworkStats conns p prev) = successfulPackets prev"
  "droppedPackets (updateNetworkStats conns p prev) = droppedPackets prev"
  "totalPackets (updateNetworkStats conns p prev) = totalPackets prev + 1"
  by (simp_all add: updateNetworkStats_def Let_def)

lemma networkStats_sendPacket:
  "networkStats (sendPacket s d dat now st) =
     (if findPath s d (nodes st) = [] then networkStats st
      else updateNetworkStats (connections st)
        \<lparr>p_id = ''p'' @ show_nat now, p_source = s, p_destination = d, p_data = dat,
          p_path = findPath s d (nodes st), p_currentPosition = 0, p_status = Moving,
          p_type = packetType st, p_timestamp = now\<rparr> (networkStats st))"
  by (simp add: sendPacket_def Let_def)

lemma step_success_dropped:
  "successfulPackets (networkStats (step e st)) = successfulPackets (networkStats st) \<and>
   droppedPackets (networkStats (step e st)) = droppedPackets (networkStats st)"
proof (cases "\<exists>s d dat now. e = SendPacket s d dat now")
  case True
  then show ?thesis
    by (auto simp: networkStats_sendPacket updateNetworkStats_counters)
next
  case False
  then show ?thesis by (simp add: networkStats_step_other)
qed

lemma run_success_dropped:
  "successfulPackets (networkStats (run es st)) = successfulPackets (networkStats st) \<and>
   droppedPackets (networkStats (run es st)) = droppedPackets (networkStats st)"
proof (induction es arbitrary: st)
  case Nil
  then show ?case by (simp add: run_Nil)
next
  case (Cons e es)
  from Cons.IH[of "step e st"] step_success_dropped[of e st]
  show ?case by (simp add: run_Cons)
qed

lemma map_of_ensureNodeStat:
  "map_of (ensureNodeStat k stats) =
     (case map_of stats k of
        None \<Rightarrow> if k \<in> set inheritedNames then map_of stats else (map_of stats)(k \<mapsto> emptyNodeStat)
      | Some _ \<Rightarrow> map_of stats)"
  by (simp add: ensureNodeStat_def update_conv' split: option.splits)

text \<open>At an inherited name without an entry the statistics get no entry for the destination.\<close>

lemma receivedCount_update_inherited:
  "map_of (nodeStats prev) (p_destination p) = None \<Longrightarrow> p_destination p \<in> set inheritedNames \<Longrightarrow>
   map_of (nodeStats (updateNetworkStats conns p prev)) (p_destination p) = None"
  by (auto simp: updateNetworkStats_def Let_def map_of_map_entry map_of_ensureNodeStat
        split: option.splits)

text \<open>At every other destination (one with an entry, or one that is not an inherited name)
  the received counter is incremented.\<close>

lemma receivedCount_update:
  "map_of (nodeStats prev) (p_destination p) \<noteq> None \<or> p_destination p \<notin> set inheritedNames \<Longrightarrow>
   receivedCount (updateNetworkStats conns p prev) (p_destination p) =
     receivedCount prev (p_destination p) + 1"
  by (auto simp: receivedCount_def updateNetworkStats_def Let_def map_of_map_entry
        map_of_ensureNodeStat emptyNodeStat_def split: option.splits)

subsection \<open>Claims about packets, ticks and statistics\<close>

lemma findPath_initial_H1_H2: "findPath ''H1'' ''H2'' initialNodes = [''H1'', ''S1'', ''H2'']"
  by (simp add: findPath_def initialNodes_def initialNode_def)

lemma packets_send_initial:
  "packets (sendPacket ''H1'' ''H2'' dat now initialState) =
     [\<lparr>p_id = ''p'' @ show_nat now, p_source = ''H1'', p_destination = ''H2'', p_data = dat,
       p_path = [''H1'', ''S1'', ''H2''], p_currentPosition = 0, p_status = Moving,
       p_type = TCP, p_timestamp = now\<rparr>]"
  by (simp add: packets_sendPacket initialState_def findPath_initial_H1_H2)

lemma isSimulating_sendPacket: "isSimulating (sendPacket s d dat now st) = isSimulating st"
  by (simp add: sendPacket_def Let_def)

lemma isSimulating_tick: "isSimulating (tick st) = isSimulating st"
  by (simp add: tick_def)

text \<open>
  Claim C3, as the code has it. In every state reached from a state without packets, every
  packet's position is a valid index of its path; a delivered packet is at the last index
  of its path; and a packet at the last index is delivered by the next tick at the latest.
  (A packet at the last index may still be moving.)
\<close>

theorem position_invariant:
  assumes "packets st0 = []"
  shows "\<forall>p \<in> set (packets (run es st0)).
           p_currentPosition p < length (p_path p) \<and>
           (p_status p = Delivered \<longrightarrow> p_currentPosition p = length (p_path p) - 1) \<and>
           (p_currentPosition p = length (p_path p) - 1 \<longrightarrow> p_status (tickPacket p) = Delivered)"
proof
  fix p assume p: "p \<in> set (packets (run es st0))"
  from assms have "\<forall>p \<in> set (packets st0). packet_ok p" by simp
  from packet_ok_run[OF this] p have ok: "packet_ok p" by blast
  then have "p_currentPosition p = length (p_path p) - 1 \<longrightarrow> p_status (tickPacket p) = Delivered"
    by (cases "p_status p") (auto simp: packet_ok_def tickPacket_def Let_def)
  with ok show "p_currentPosition p < length (p_path p) \<and>
           (p_status p = Delivered \<longrightarrow> p_currentPosition p = length (p_path p) - 1) \<and>
           (p_currentPosition p = length (p_path p) - 1 \<longrightarrow> p_status (tickPacket p) = Delivered)"
    by (simp add: packet_ok_def)
qed

lemma run_initial_two_ticks:
  "packets (run [SendPacket ''H1'' ''H2'' ''Test Data'' 7, ToggleSimulation, IntervalFires, IntervalFires]
             initialState) =
     [\<lparr>p_id = ''p'' @ show_nat 7, p_source = ''H1'', p_destination = ''H2'', p_data = ''Test Data'',
       p_path = [''H1'', ''S1'', ''H2''], p_currentPosition = 2, p_status = Moving,
       p_type = TCP, p_timestamp = 7\<rparr>]"
  by (simp add: run_def packets_tick packets_send_initial isSimulating_tick isSimulating_sendPacket
        tickPacket_def Let_def)
     (simp add: initialState_def)

lemma run_initial_three_ticks:
  "packets (run [SendPacket ''H1'' ''H2'' ''Test Data'' 7, ToggleSimulation, IntervalFires, IntervalFires,
                 IntervalFires] initialState) =
     [\<lparr>p_id = ''p'' @ show_nat 7, p_source = ''H1'', p_destination = ''H2'', p_data = ''Test Data'',
       p_path = [''H1'', ''S1'', ''H2''], p_currentPosition = 2, p_status = Delivered,
       p_type = TCP, p_timestamp = 7\<rparr>]"
  by (simp add: run_def packets_tick packets_send_initial isSimulating_tick isSimulating_sendPacket
        tickPacket_def Let_def)
     (simp add: initialState_def)

text \<open>The invariant at work on the initial screen: H1 sends to H2; after two ticks the packet
  is at the last index and the next tick delivers it, after three ticks it is delivered and
  at the last index.\<close>

theorem position_invariant_witness:
  "packets initialState = [] \<and>
   p_currentPosition (hd (packets (run [SendPacket ''H1'' ''H2'' ''Test Data'' 7, ToggleSimulation,
      IntervalFires, IntervalFires] initialState))) < 3 \<and>
   p_status (tickPacket (hd (packets (run [SendPacket ''H1'' ''H2'' ''Test Data'' 7, ToggleSimulation,
      IntervalFires, IntervalFires] initialState)))) = Delivered \<and>
   p_status (hd (packets (run [SendPacket ''H1'' ''H2'' ''Test Data'' 7, ToggleSimulation,
      IntervalFires, IntervalFires, IntervalFires] initialState))) = Delivered \<and>
   p_currentPosition (hd (packets (run [SendPacket ''H1'' ''H2'' ''Test Data'' 7, ToggleSimulation,
      IntervalFires, IntervalFires, IntervalFires] initialState))) = 2"
proof -
  have h: "packets initialState = []" by (simp add: initialState_def)
  from position_invariant[OF h,
      of "[SendPacket ''H1'' ''H2'' ''Test Data'' 7, ToggleSimulation, IntervalFires, IntervalFires]"]
    position_invariant[OF h,
      of "[SendPacket ''H1'' ''H2'' ''Test Data'' 7, ToggleSimulation, IntervalFires, IntervalFires,
           IntervalFires]"]
  show ?thesis using h by (simp add: run_initial_two_ticks run_initial_three_ticks)
qed

text \<open>
  Claim C3 as stated fails: two ticks after H1 sent to H2 on the initial screen, the packet
  is at the last index of its path and its status is not delivered.
\<close>

theorem last_index_still_moving:
  "(let p = hd (packets (run [SendPacket ''H1'' ''H2'' ''Test Data'' 7, ToggleSimulation,
                              IntervalFires, IntervalFires] initialState))
    in p_currentPosition p = length (p_path p) - 1 \<and> p_status p \<noteq> Delivered)"
  by (simp add: run_initial_two_ticks)

text \<open>
  Claim C9. A tick leaves a packet whose status is delivered or dropped as it is: its
  position and its status do not change (nor does anything else of it), and the same holds
  after any number of ticks.
\<close>

theorem tick_terminal_unchanged:
  assumes "i < length (packets st)"
    and "p_status (packets st ! i) = Delivered \<or> p_status (packets st ! i) = Dropped"
  shows "p_currentPosition (packets (tick st) ! i) = p_currentPosition (packets st ! i) \<and>
         p_status (packets (tick st) ! i) = p_status (packets st ! i) \<and>
         packets (tick st) ! i = packets st ! i \<and>
         packets (ticks n st) ! i = packets st ! i"
proof -
  from assms(2) have nm: "p_status (packets st ! i) \<noteq> Moving" by auto
  have "packets (tick st) ! i = packets st ! i"
    using assms(1) nm by (simp add: packets_tick tickPacket_terminal)
  moreover have "packets (ticks n st) ! i = packets st ! i"
    using assms(1) nm by (simp add: packets_ticks tickPacket_funpow_terminal)
  ultimately show ?thesis by simp
qed

lemma line_three_ticks:
  "packets (ticks 3 (sendPacket ''A'' ''C'' ''data'' 0 lineState)) =
     [\<lparr>p_id = ''p'' @ show_nat 0, p_source = ''A'', p_destination = ''C'', p_data = ''data'',
       p_path = [''A'', ''B'', ''C''], p_currentPosition = 2, p_status = Delivered,
       p_type = TCP, p_timestamp = 0\<rparr>]"
  by (simp add: packets_ticks packets_sendPacket_line tickPacket_def eval_nat_numeral Let_def)

text \<open>A delivered packet of the line topology, ticked once and five times more.\<close>

theorem tick_terminal_unchanged_witness:
  "0 < length (packets (ticks 3 (sendPacket ''A'' ''C'' ''data'' 0 lineState))) \<and>
   p_status (packets (ticks 3 (sendPacket ''A'' ''C'' ''data'' 0 lineState)) ! 0) = Delivered \<and>
   p_currentPosition (packets (tick (ticks 3 (sendPacket ''A'' ''C'' ''data'' 0 lineState))) ! 0) = 2 \<and>
   p_status (packets (tick (ticks 3 (sendPacket ''A'' ''C'' ''data'' 0 lineState))) ! 0) = Delivered \<and>
   p_status (packets (ticks 5 (ticks 3 (sendPacket ''A'' ''C'' ''data'' 0 lineState))) ! 0) = Delivered"
proof -
  let ?st = "ticks 3 (sendPacket ''A'' ''C'' ''data'' 0 lineState)"
  have h1: "0 < length (packets ?st)" by (simp add: line_three_ticks)
  have h2: "p_status (packets ?st ! 0) = Delivered" by (simp add: line_three_ticks)
  from tick_terminal_unchanged[OF h1 disjI1[OF h2], of 5]
  show ?thesis using h1 h2 by (simp add: line_three_ticks)
qed

text \<open>
  Claim C5. A packet created by \<open>sendPacket\<close> keeps, through every sequence of events of
  the screen (ticks, added nodes and connections, topology presets, scenarios, loaded
  configurations, further sends), the path that \<open>findPath\<close> computed when it was sent. No
  single event and no sequence of events changes the path of any packet, no packet is ever
  removed, and a tick changes nothing of a packet but its position and its status.
\<close>

theorem path_fixed_after_creation:
  assumes "findPath s d (nodes st) \<noteq> []"
  shows "length (packets st) < length (packets (run es (sendPacket s d dat now st))) \<and>
         p_path (packets (run es (sendPacket s d dat now st)) ! length (packets st)) =
           findPath s d (nodes st) \<and>
         (\<forall>i < length (packets st'). p_path (packets (step e st') ! i) = p_path (packets st' ! i)) \<and>
         (\<forall>i < length (packets st'). p_path (packets (run es st') ! i) = p_path (packets st' ! i)) \<and>
         tickPacket p = p\<lparr>p_currentPosition := p_currentPosition (tickPacket p),
                           p_status := p_status (tickPacket p)\<rparr>"
proof -
  let ?st1 = "sendPacket s d dat now st"
  have len: "length (packets st) < length (packets ?st1)"
    using assms by (simp add: packets_sendPacket)
  have "p_path (packets ?st1 ! length (packets st)) = findPath s d (nodes st)"
    using assms by (simp add: packets_sendPacket)
  with run_keeps_path[OF len, of es]
  have "p_path (packets (run es ?st1) ! length (packets st)) = findPath s d (nodes st)" by simp
  moreover from len length_packets_run[of ?st1 es]
  have "length (packets st) < length (packets (run es ?st1))" by simp
  moreover have "tickPacket p = p\<lparr>p_currentPosition := p_currentPosition (tickPacket p),
                           p_status := p_status (tickPacket p)\<rparr>"
    by (simp add: tickPacket_def Let_def)
  ultimately show ?thesis by (simp add: step_keeps_path run_keeps_path)
qed

text \<open>A packet of the line topology keeps its path while the graph is edited and replaced.\<close>

theorem path_fixed_after_creation_witness:
  "findPath ''A'' ''C'' (nodes lineState) \<noteq> [] \<and>
   p_path (packets (run [AddNode Host ''10.0.0.9'', PressCanvasNode ''A'', PressCanvasNode ''C'',
                         ToggleSimulation, IntervalFires, ApplyTopology Star,
                         ApplyScenario Congestion id, IntervalFires]
                        (sendPacket ''A'' ''C'' ''data'' 0 lineState)) ! 0) = [''A'', ''B'', ''C''] \<and>
   0 < length (packets (sendPacket ''A'' ''C'' ''data'' 0 lineState)) \<and>
   p_path (packets (step (ApplyTopology Mesh) (sendPacket ''A'' ''C'' ''data'' 0 lineState)) ! 0) =
     [''A'', ''B'', ''C'']"
proof -
  have h: "findPath ''A'' ''C'' (nodes lineState) \<noteq> []"
    by (simp add: lineState_def findPath_line)
  have l: "length (packets lineState) = 0" by (simp add: lineState_def initialState_def)
  have n: "nodes lineState = lineNodes" by (simp add: lineState_def)
  from path_fixed_after_creation[OF h, of "[AddNode Host ''10.0.0.9'', PressCanvasNode ''A'',
      PressCanvasNode ''C'', ToggleSimulation, IntervalFires, ApplyTopology Star,
      ApplyScenario Congestion id, IntervalFires]" "''data''" 0
      "sendPacket ''A'' ''C'' ''data'' 0 lineState" "ApplyTopology Mesh"]
  show ?thesis using h by (simp add: l n findPath_line packets_sendPacket_line)
qed

text \<open>
  Claim C7. From a state without packets no sequence of events leads to a state with a
  dropped packet. An event changes the status of a packet only from moving to delivered, a
  status other than moving stays as it is through every sequence of events, and the
  packets after a tick do not depend on the nodes or the connections (so not on their
  packet loss or status).
\<close>

theorem no_packet_dropped:
  assumes "packets st0 = []"
  shows "(\<forall>p \<in> set (packets (run es st0)). p_status p \<noteq> Dropped) \<and>
         (\<forall>i < length (packets st).
            p_status (packets (step e st) ! i) = p_status (packets st ! i) \<or>
            (p_status (packets st ! i) = Moving \<and> p_status (packets (step e st) ! i) = Delivered)) \<and>
         (\<forall>i < length (packets st). p_status (packets st ! i) \<noteq> Moving \<longrightarrow>
            p_status (packets (run es st) ! i) = p_status (packets st ! i)) \<and>
         packets (tick (st\<lparr>nodes := ns, connections := cs\<rparr>)) = packets (tick st)"
proof -
  from assms have "\<forall>p \<in> set (packets st0). p_status p \<noteq> Dropped" by simp
  from not_dropped_run[OF this]
  have "\<forall>p \<in> set (packets (run es st0)). p_status p \<noteq> Dropped" .
  moreover have "packets (tick (st\<lparr>nodes := ns, connections := cs\<rparr>)) = packets (tick st)"
    by (simp add: packets_tick)
  ultimately show ?thesis using step_status run_terminal by blast
qed

text \<open>On the initial screen, two ticks after H1 sent to H2.\<close>

theorem no_packet_dropped_witness:
  "packets initialState = [] \<and>
   p_status (hd (packets (run [SendPacket ''H1'' ''H2'' ''Test Data'' 7, ToggleSimulation,
      IntervalFires, IntervalFires] initialState))) \<noteq> Dropped \<and>
   p_status (packets (ticks 3 (sendPacket ''A'' ''C'' ''data'' 0 lineState)) ! 0) = Delivered \<and>
   p_status (packets (step IntervalFires (ticks 3 (sendPacket ''A'' ''C'' ''data'' 0 lineState))) ! 0) =
     Delivered \<and>
   p_status (packets (run [ToggleSimulation, IntervalFires, ApplyScenario Failure id]
                        (ticks 3 (sendPacket ''A'' ''C'' ''data'' 0 lineState))) ! 0) = Delivered"
proof -
  have h: "packets initialState = []" by (simp add: initialState_def)
  from no_packet_dropped[OF h,
      of "[SendPacket ''H1'' ''H2'' ''Test Data'' 7, ToggleSimulation, IntervalFires, IntervalFires]"]
  have a: "p_status (hd (packets (run [SendPacket ''H1'' ''H2'' ''Test Data'' 7, ToggleSimulation,
      IntervalFires, IntervalFires] initialState))) \<noteq> Dropped"
    by (simp add: run_initial_two_ticks)
  from no_packet_dropped[OF h, of "[ToggleSimulation, IntervalFires, ApplyScenario Failure id]"
      "ticks 3 (sendPacket ''A'' ''C'' ''data'' 0 lineState)" IntervalFires]
  show ?thesis using h a by (simp add: line_three_ticks)
qed

text \<open>
  What the statistics do, for every destination at which they are kept (a destination
  with an entry, or one that is not an inherited name): a successful
  \<open>sendPacket(s, d, data)\<close> increments the received counter of \<open>d\<close> at once, while the new
  packet is at position 0 and moving. A tick leaves the statistics as they are, and so
  does every event other than a send. No sequence of events changes the counters of
  successful and of dropped packets, which are 0 in every state reached from the initial
  state.
\<close>

lemma statistics_at_send:
  "(findPath s d (nodes st) \<noteq> [] \<and>
    (map_of (nodeStats (networkStats st)) d \<noteq> None \<or> d \<notin> set inheritedNames) \<longrightarrow>
      receivedCount (networkStats (sendPacket s d dat now st)) d =
        receivedCount (networkStats st) d + 1 \<and>
      p_currentPosition (last (packets (sendPacket s d dat now st))) = 0 \<and>
      p_status (last (packets (sendPacket s d dat now st))) = Moving) \<and>
   networkStats (tick st) = networkStats st \<and>
   ((\<forall>s d dat now. e \<noteq> SendPacket s d dat now) \<longrightarrow> networkStats (step e st) = networkStats st) \<and>
   successfulPackets (networkStats (run es st)) = successfulPackets (networkStats st) \<and>
   droppedPackets (networkStats (run es st)) = droppedPackets (networkStats st) \<and>
   successfulPackets (networkStats (run es initialState)) = 0 \<and>
   droppedPackets (networkStats (run es initialState)) = 0"
proof -
  have "findPath s d (nodes st) \<noteq> [] \<and>
      (map_of (nodeStats (networkStats st)) d \<noteq> None \<or> d \<notin> set inheritedNames) \<longrightarrow>
      receivedCount (networkStats (sendPacket s d dat now st)) d =
        receivedCount (networkStats st) d + 1"
    using receivedCount_update[of "networkStats st"
        "\<lparr>p_id = ''p'' @ show_nat now, p_source = s, p_destination = d, p_data = dat,
          p_path = findPath s d (nodes st), p_currentPosition = 0, p_status = Moving,
          p_type = packetType st, p_timestamp = now\<rparr>" "connections st"]
    by (simp add: networkStats_sendPacket)
  moreover have "successfulPackets (networkStats (run es initialState)) = 0 \<and>
     droppedPackets (networkStats (run es initialState)) = 0"
    using run_success_dropped[of es initialState]
    by (simp add: initialState_def initialStats_def)
  moreover have "networkStats (tick st) = networkStats st" by (simp add: tick_def)
  ultimately show ?thesis
    using run_success_dropped[of es st]
    by (simp add: packets_sendPacket networkStats_step_other)
qed

text \<open>Sending from A to C in the line topology counts one packet received at C.\<close>

lemma statistics_at_send_line:
  "findPath ''A'' ''C'' (nodes lineState) \<noteq> [] \<and>
   ''C'' \<notin> set inheritedNames \<and>
   receivedCount (networkStats lineState) ''C'' = 0 \<and>
   receivedCount (networkStats (sendPacket ''A'' ''C'' ''data'' 0 lineState)) ''C'' = 1 \<and>
   p_currentPosition (last (packets (sendPacket ''A'' ''C'' ''data'' 0 lineState))) = 0 \<and>
   networkStats (step ToggleSimulation lineState) = networkStats lineState"
proof -
  have h: "findPath ''A'' ''C'' (nodes lineState) \<noteq> []"
    by (simp add: lineState_def findPath_line)
  have i: "''C'' \<notin> set inheritedNames" by (simp add: inheritedNames_def)
  have z: "receivedCount (networkStats lineState) ''C'' = 0"
    by (simp add: receivedCount_def lineState_def initialState_def initialStats_def)
  from statistics_at_send[of "''A''" "''C''" lineState "''data''" 0 ToggleSimulation "[]"]
  show ?thesis using h i z by simp
qed






section \<open>Editing the graph and scenarios\<close>

subsection \<open>Connections\<close>

lemma create_initials:
  "map (\<lambda>n. hd (n_id n)) (create Star) = ''RSSHHHH''"
  "map (\<lambda>n. hd (n_id n)) (create Mesh) = ''RRSSHH''"
  "map (\<lambda>n. hd (n_id n)) (create Bus) = ''RSHSHHH''"
  by (simp_all add: createStar_def createMesh_def createBus_def circleNode_def busNode_def
        routerR1_def typeLetter_def Let_def)

lemma create_ids: "n \<in> set (create t) \<Longrightarrow> n_id n \<noteq> ''A''"
proof
  assume n: "n \<in> set (create t)" and a: "n_id n = ''A''"
  from n have "hd (n_id n) \<in> set (map (\<lambda>n. hd (n_id n)) (create t))" by simp
  with a show False by (cases t) (simp_all only: create_initials, simp_all)
qed

lemma nodes_addConnection:
  "a \<noteq> [] \<Longrightarrow> a \<noteq> b \<Longrightarrow> nodes (addConnection a b st) =
     map (\<lambda>node. if n_id node = a then node\<lparr>n_connections := n_connections node @ [b]\<rparr>
                  else if n_id node = b then node\<lparr>n_connections := n_connections node @ [a]\<rparr>
                  else node) (nodes st)"
  by (simp add: addConnection_def handleNodePress_def truthy_def Let_def)

lemma links_kept_refl: "links_kept ns ns"
  by (simp add: links_kept_def)

lemma links_kept_map:
  "(\<And>n. n_id (f n) = n_id n \<and> set (n_connections n) \<subseteq> set (n_connections (f n))) \<Longrightarrow>
   links_kept ns (map f ns)"
  by (simp add: links_kept_def)

lemma links_kept_mapSelected:
  "(\<And>n. n_id (f n) = n_id n \<and> n_connections (f n) = n_connections n) \<Longrightarrow>
   links_kept (nodes st) (nodes (mapSelected f st))"
  by (auto simp: mapSelected_def links_kept_def)

lemma links_kept_handleNodePress: "links_kept (nodes st) (nodes (handleNodePress i st))"
  by (auto simp: handleNodePress_def links_kept_def Let_def)

lemma links_kept_scenario: "links_kept (nodes st) (nodes (applyScenario shuffle sc st))"
  by (cases sc)
     (simp_all add: applyScenario_def Let_def normalSetup_def congestionSetup_def
        failureSetup_def securitySetup_def links_kept_def)

lemma links_kept_step:
  "(\<forall>t. e \<noteq> ApplyTopology t) \<Longrightarrow> (\<forall>k. e \<noteq> LoadConfig k) \<Longrightarrow>
   links_kept (nodes st) (nodes (step e st))"
proof (cases e)
  case (SendPacket s d dat now)
  then show ?thesis by (simp add: sendPacket_def Let_def links_kept_refl)
next
  case (AddNode t ip)
  then show ?thesis by (simp add: addNode_def Let_def links_kept_def nth_append)
qed (simp_all add: links_kept_refl links_kept_handleNodePress links_kept_scenario
       touchNode_def updateConnection_def updatePacketFilter_def tick_def
       setNodeIp_def setNodeBandwidth_def setNodeLatency_def setNodePacketLoss_def
       links_kept_mapSelected saveCurrentConfig_def deleteConfig_def)

text \<open>
  Claim C6, as the code has it. For distinct ids \<open>a\<close> and \<open>b\<close>, after the connection is added
  (node \<open>a\<close> selected, its id not the empty string, and node \<open>b\<close> pressed) every node with
  id \<open>a\<close> has \<open>b\<close> in its link list and every node with id \<open>b\<close> has \<open>a\<close> in its link list.
  The screen has no operation that removes a connection: every event other than a topology
  preset or the loading of a saved configuration, which replace the graph, keeps every node
  and every id of its link list.
\<close>

theorem addConnection_symmetric:
  assumes "a \<noteq> []" and "a \<noteq> b"
  shows "length (nodes (addConnection a b st)) = length (nodes st) \<and>
     (\<forall>i < length (nodes st).
        n_id (nodes (addConnection a b st) ! i) = n_id (nodes st ! i) \<and>
        (n_id (nodes st ! i) = a \<longrightarrow> b \<in> set (n_connections (nodes (addConnection a b st) ! i))) \<and>
        (n_id (nodes st ! i) = b \<longrightarrow> a \<in> set (n_connections (nodes (addConnection a b st) ! i)))) \<and>
     ((\<forall>t. e \<noteq> ApplyTopology t) \<and> (\<forall>k. e \<noteq> LoadConfig k) \<longrightarrow>
        length (nodes st) \<le> length (nodes (step e st)) \<and>
        (\<forall>i < length (nodes st).
           n_id (nodes (step e st) ! i) = n_id (nodes st ! i) \<and>
           set (n_connections (nodes st ! i)) \<subseteq> set (n_connections (nodes (step e st) ! i))))"
proof -
  have "(\<forall>t. e \<noteq> ApplyTopology t) \<and> (\<forall>k. e \<noteq> LoadConfig k) \<longrightarrow>
        length (nodes st) \<le> length (nodes (step e st)) \<and>
        (\<forall>i < length (nodes st).
           n_id (nodes (step e st) ! i) = n_id (nodes st ! i) \<and>
           set (n_connections (nodes st ! i)) \<subseteq> set (n_connections (nodes (step e st) ! i)))"
    using links_kept_step[of e st] by (simp add: links_kept_def)
  then show ?thesis using assms by (simp add: nodes_addConnection)
qed

lemma nodes_lineState: "nodes lineState = lineNodes"
  by (simp add: lineState_def)

text \<open>Connecting A and C in the line topology; adding a node keeps the link from A to B.\<close>

theorem addConnection_symmetric_witness:
  "''A'' \<noteq> ''C'' \<and>
   n_id (nodes (addConnection ''A'' ''C'' lineState) ! 0) = ''A'' \<and>
   ''C'' \<in> set (n_connections (nodes (addConnection ''A'' ''C'' lineState) ! 0)) \<and>
   n_id (nodes (addConnection ''A'' ''C'' lineState) ! 2) = ''C'' \<and>
   ''A'' \<in> set (n_connections (nodes (addConnection ''A'' ''C'' lineState) ! 2)) \<and>
   ''B'' \<in> set (n_connections (nodes (step (AddNode Router ''10.0.0.7'') lineState) ! 0))"
proof -
  have h: "''A'' \<noteq> []" "''A'' \<noteq> ''C''" by simp_all
  from addConnection_symmetric[OF h, of lineState "AddNode Router ''10.0.0.7''"]
  show ?thesis
    by (simp add: nodes_addConnection addNode_def nodes_lineState lineNodes_def initialNode_def
          eval_nat_numeral)
qed

lemma selectedNode_lineState: "\<not> truthy (selectedNode lineState)"
  by (simp add: lineState_def initialState_def truthy_def)

lemma savedConfigs_lineState: "savedConfigs lineState = []"
  by (simp add: lineState_def initialState_def)

lemma scenario_links:
  "n \<in> set (nodes (applyScenario shuffle sc st)) \<Longrightarrow>
   \<exists>m \<in> set (nodes st). n_id m = n_id n \<and> n_connections m = n_connections n"
  by (cases sc)
     (auto simp: applyScenario_def Let_def normalSetup_def congestionSetup_def
        failureSetup_def securitySetup_def)

lemma lineNodes_links:
  "m \<in> set lineNodes \<Longrightarrow> n_id m = ''A'' \<Longrightarrow> ''B'' \<in> set (n_connections m)"
  by (auto simp: lineNodes_def initialNode_def)

text \<open>
  Claim C6 as stated fails in its second half: in the line topology, where A and B are
  connected, no event of the screen leads to a state in which a node A lacks the link to B.
\<close>

theorem no_handler_removes_link:
  "\<not> (\<exists>e. \<exists>n \<in> set (nodes (step e lineState)). n_id n = ''A'' \<and> ''B'' \<notin> set (n_connections n))"
proof
  assume "\<exists>e. \<exists>n \<in> set (nodes (step e lineState)). n_id n = ''A'' \<and> ''B'' \<notin> set (n_connections n)"
  then obtain e n where n: "n \<in> set (nodes (step e lineState))" "n_id n = ''A''"
    "''B'' \<notin> set (n_connections n)" by blast
  show False
  proof (cases e)
    case (ApplyTopology t)
    with n(1) have "n \<in> set (create t)" by (simp add: applyTopology_def)
    from create_ids[OF this] n(2) show False by simp
  next
    case (ApplyScenario sc shuffle)
    with n(1) have "n \<in> set (nodes (applyScenario shuffle sc lineState))" by simp
    from scenario_links[OF this] obtain m where
      "m \<in> set lineNodes" "n_id m = n_id n" "n_connections m = n_connections n"
      by (auto simp: nodes_lineState)
    with n(2,3) lineNodes_links[of m] show False by simp
  next
    case (AddNode t ip)
    with n lineNodes_links show False
      by (auto simp: addNode_def Let_def nodes_lineState)
  next
    case (SendPacket s d dat now)
    with n lineNodes_links show False
      by (auto simp: sendPacket_def Let_def nodes_lineState split: if_splits)
  next
    case IntervalFires
    then have "nodes (step e lineState) = lineNodes"
      by (simp add: tick_def nodes_lineState)
    with n lineNodes_links show False by auto
  next
    case (SaveConfig configName configDescription date)
    then have "nodes (step e lineState) = lineNodes"
      by (simp add: saveCurrentConfig_def nodes_lineState)
    with n lineNodes_links show False by auto
  next
    case (LoadConfig k)
    then have "nodes (step e lineState) = lineNodes"
      by (simp add: savedConfigs_lineState nodes_lineState)
    with n lineNodes_links show False by auto
  qed (use n lineNodes_links in \<open>auto simp: handleNodePress_def touchNode_def updateConnection_def
         updatePacketFilter_def setNodeIp_def setNodeBandwidth_def setNodeLatency_def
         setNodePacketLoss_def mapSelected_def saveCurrentConfig_def deleteConfig_def
         selectedNode_lineState nodes_lineState\<close>)
qed

subsection \<open>The congestion scenario\<close>

text \<open>
  Claim C8, as the code has it. The congestion scenario does not depend on the random
  source: on the same nodes and connections it gives the same result. It keeps the nodes
  and the connections in number and order and empties the packet filters. Every node
  becomes active, its latency three times and its packet loss twice what it was (\<open>NaN\<close>
  where the field was absent or \<open>NaN\<close>), and its bandwidth and every other field stay as
  they were. Every connection becomes active, its latency three times, its packet loss
  twice and its bandwidth half what it was, its id and end points as they were.
  (Numbers are real numbers here; the products are not rounded.)
\<close>

theorem congestion_scenario:
  "applyScenario shuffle Congestion st = applyScenario shuffle' Congestion st \<and>
   length (nodes (applyScenario shuffle Congestion st)) = length (nodes st) \<and>
   length (connections (applyScenario shuffle Congestion st)) = length (connections st) \<and>
   packetFilters (applyScenario shuffle Congestion st) = Map.empty \<and>
   (\<forall>i < length (nodes st).
      let n = nodes st ! i; n' = nodes (applyScenario shuffle Congestion st) ! i in
        n_status n' = Active \<and>
        n_latency n' = Some (case n_latency n of Some (Num l) \<Rightarrow> Num (3 * l) | _ \<Rightarrow> NaN) \<and>
        n_packetLoss n' = Some (case n_packetLoss n of Some (Num p) \<Rightarrow> Num (2 * p) | _ \<Rightarrow> NaN) \<and>
        n_bandwidth n' = n_bandwidth n \<and>
        n_id n' = n_id n \<and> n_type n' = n_type n \<and> n_label n' = n_label n \<and>
        n_x n' = n_x n \<and> n_y n' = n_y n \<and> n_connections n' = n_connections n \<and>
        n_ip n' = n_ip n) \<and>
   (\<forall>i < length (connections st).
      let c = connections st ! i; c' = connections (applyScenario shuffle Congestion st) ! i in
        c_status c' = ConnActive \<and>
        c_latency c' = (case c_latency c of Num l \<Rightarrow> Num (3 * l) | NaN \<Rightarrow> NaN) \<and>
        c_packetLoss c' = (case c_packetLoss c of Num p \<Rightarrow> Num (2 * p) | NaN \<Rightarrow> NaN) \<and>
        c_bandwidth c' = (case c_bandwidth c of Num b \<Rightarrow> Num (b / 2) | NaN \<Rightarrow> NaN) \<and>
        c_id c' = c_id c \<and> c_from c' = c_from c \<and> c_to c' = c_to c)"
  by (auto simp: applyScenario_def congestionSetup_def Let_def split: option.splits number.splits)

text \<open>
  Claim C8 as stated fails for the nodes: under congestion the bandwidth of router R1 of
  the initial screen is 1000, as it was, not 500.
\<close>

theorem congestion_keeps_node_bandwidth:
  "n_id (nodes initialState ! 0) = ''R1'' \<and>
   n_bandwidth (nodes initialState ! 0) = Some (Num 1000) \<and>
   n_bandwidth (nodes (applyScenario id Congestion initialState) ! 0) = Some (Num 1000)"
  by (simp add: applyScenario_def congestionSetup_def Let_def initialState_def initialNodes_def
        initialNode_def typeBandwidth_def)

lemma connections_addConnection_initial:
  "connections (addConnection ''R1'' ''H1'' initialState) =
     [\<lparr>c_id = ''C'' @ show_nat 1, c_from = ''R1'', c_to = ''H1'', c_bandwidth = Num 100,
       c_latency = Num 1, c_packetLoss = Num 0.05, c_status = ConnActive\<rparr>]"
  by (simp add: addConnection_def handleNodePress_def truthy_def initialState_def Let_def)

lemma nodes_addConnection_initial_0:
  "nodes (addConnection ''R1'' ''H1'' initialState) ! 0 =
     (initialNode ''R1'' Router ''Router 1'' 100 100 [''S1'', ''R2'', ''H1''] ''192.168.1.1'')"
  by (simp add: nodes_addConnection initialState_def initialNodes_def initialNode_def)

lemma length_nodes_addConnection_initial:
  "length (nodes (addConnection ''R1'' ''H1'' initialState)) = 8"
  by (simp add: nodes_addConnection initialState_def initialNodes_def)

text \<open>The initial screen with a connection from R1 to H1, under congestion.\<close>

theorem congestion_scenario_witness:
  "n_status (nodes congestedState ! 0) = Active \<and>
   n_latency (nodes congestedState ! 0) = Some (Num 15) \<and>
   n_packetLoss (nodes congestedState ! 0) = Some (Num 0.2) \<and>
   n_bandwidth (nodes congestedState ! 0) = Some (Num 1000) \<and>
   c_status (connections congestedState ! 0) = ConnActive \<and>
   c_latency (connections congestedState ! 0) = Num 3 \<and>
   c_packetLoss (connections congestedState ! 0) = Num 0.1 \<and>
   c_bandwidth (connections congestedState ! 0) = Num 50 \<and>
   packetFilters congestedState = Map.empty"
proof -
  let ?st = "addConnection ''R1'' ''H1'' initialState"
  note T = congestion_scenario[of id ?st id]
  have n0: "(0::nat) < length (nodes ?st)"
    by (simp add: length_nodes_addConnection_initial)
  have c0: "(0::nat) < length (connections ?st)"
    by (simp add: connections_addConnection_initial)
  from T n0 have node:
    "n_status (nodes (applyScenario id Congestion ?st) ! 0) = Active"
    "n_latency (nodes (applyScenario id Congestion ?st) ! 0) =
       Some (case n_latency (nodes ?st ! 0) of Some (Num l) \<Rightarrow> Num (3 * l) | _ \<Rightarrow> NaN)"
    "n_packetLoss (nodes (applyScenario id Congestion ?st) ! 0) =
       Some (case n_packetLoss (nodes ?st ! 0) of Some (Num p) \<Rightarrow> Num (2 * p) | _ \<Rightarrow> NaN)"
    "n_bandwidth (nodes (applyScenario id Congestion ?st) ! 0) = n_bandwidth (nodes ?st ! 0)"
    unfolding Let_def by blast+
  from T c0 have conn:
    "c_status (connections (applyScenario id Congestion ?st) ! 0) = ConnActive"
    "c_latency (connections (applyScenario id Congestion ?st) ! 0) =
       (case c_latency (connections ?st ! 0) of Num l \<Rightarrow> Num (3 * l) | NaN \<Rightarrow> NaN)"
    "c_packetLoss (connections (applyScenario id Congestion ?st) ! 0) =
       (case c_packetLoss (connections ?st ! 0) of Num p \<Rightarrow> Num (2 * p) | NaN \<Rightarrow> NaN)"
    "c_bandwidth (connections (applyScenario id Congestion ?st) ! 0) =
       (case c_bandwidth (connections ?st ! 0) of Num b \<Rightarrow> Num (b / 2) | NaN \<Rightarrow> NaN)"
    unfolding Let_def by blast+
  from T have filters: "packetFilters (applyScenario id Congestion ?st) = Map.empty" by blast
  show ?thesis
    unfolding congestedState_def
    by (simp add: node conn filters connections_addConnection_initial
          nodes_addConnection_initial_0 initialNode_def typeLatency_def typePacketLoss_def
          typeBandwidth_def)
qed

section \<open>The breadth-first search\<close>

subsection \<open>The loop, one level at a time\<close>

lemma visit_connections_eq:
  "visit_connections path cs (V, Q) = (V \<union> set cs, Q @ map (\<lambda>c. path @ [c]) (fresh V cs))"
  by (induction cs arbitrary: V Q) auto

lemma bfs_loop_step:
  assumes "path \<noteq> []" and "last path \<noteq> destination"
  shows "bfs_loop destination ns (V, path # Q) =
         bfs_loop destination ns
           (V \<union> set (adjacent ns (last path)),
            Q @ map (\<lambda>c. path @ [c]) (fresh V (adjacent ns (last path))))"
  using assms by (simp add: adjacent_def visit_connections_eq split: option.splits)

lemma bfs_loop_hit:
  assumes "path \<noteq> []" and "last path = destination"
  shows "bfs_loop destination ns (V, path # Q) = path"
  using assms by simp

lemma bfs_loop_level:
  assumes "\<forall>p \<in> set P. p \<noteq> [] \<and> last p \<noteq> destination"
  shows "bfs_loop destination ns (V, P @ N) =
         bfs_loop destination ns (level_visited ns P V, N @ level_paths ns P V)"
  using assms
proof (induction P arbitrary: V N)
  case Nil
  then show ?case by (simp add: level_visited_def)
next
  case (Cons p P)
  from Cons.prems have p: "p \<noteq> []" "last p \<noteq> destination"
    and rest: "\<forall>p \<in> set P. p \<noteq> [] \<and> last p \<noteq> destination" by auto
  have "bfs_loop destination ns (V, (p # P) @ N) =
        bfs_loop destination ns (V \<union> set (adjacent ns (last p)),
          P @ (N @ map (\<lambda>c. p @ [c]) (fresh V (adjacent ns (last p)))))"
    using bfs_loop_step[OF p, of ns V "P @ N"] by simp
  also have "\<dots> = bfs_loop destination ns
      (level_visited ns P (V \<union> set (adjacent ns (last p))),
       (N @ map (\<lambda>c. p @ [c]) (fresh V (adjacent ns (last p)))) @
         level_paths ns P (V \<union> set (adjacent ns (last p))))"
    by (rule Cons.IH[OF rest])
  also have "level_visited ns P (V \<union> set (adjacent ns (last p))) = level_visited ns (p # P) V"
    by (auto simp: level_visited_def)
  finally show ?case by simp
qed

lemma bfs_loop_first_hit:
  assumes "\<forall>p \<in> set P1. p \<noteq> [] \<and> last p \<noteq> destination"
    and "p \<noteq> []" and "last p = destination"
  shows "bfs_loop destination ns (V, P1 @ p # P2) = p"
proof -
  have "bfs_loop destination ns (V, P1 @ (p # P2)) =
        bfs_loop destination ns (level_visited ns P1 V, (p # P2) @ level_paths ns P1 V)"
    by (rule bfs_loop_level[OF assms(1)])
  also have "\<dots> = p" using assms(2,3) by simp
  finally show ?thesis .
qed

subsection \<open>Walks\<close>

lemma is_walk_nonempty: "is_walk ns p \<Longrightarrow> p \<noteq> []"
  by (cases p) auto

lemma is_walk_snoc:
  "p \<noteq> [] \<Longrightarrow> is_walk ns (p @ [c]) \<longleftrightarrow> is_walk ns p \<and> c \<in> set (adjacent ns (last p))"
proof (induction p rule: is_walk.induct)
  case (1 ns)
  then show ?case by simp
next
  case (2 ns u)
  then show ?case by simp
next
  case (3 ns u v rest)
  then show ?case by auto
qed

lemma walk_single: "walk ns s s [s]"
  by (simp add: walk_def)

lemma walk_length_one: "walk ns s v q \<Longrightarrow> length q < 2 \<Longrightarrow> q = [s] \<and> v = s"
  by (cases q) (auto simp: walk_def)

lemma walk_snoc:
  "walk ns s u p \<Longrightarrow> c \<in> set (adjacent ns u) \<Longrightarrow> walk ns s c (p @ [c])"
proof -
  assume w: "walk ns s u p" and c: "c \<in> set (adjacent ns u)"
  from w have ne: "p \<noteq> []" by (auto simp: walk_def dest: is_walk_nonempty)
  with w c show ?thesis by (simp add: walk_def is_walk_snoc[OF ne])
qed

lemma walk_last: "walk ns s v q \<Longrightarrow> last q = v"
  by (simp add: walk_def)

lemma walk_nonempty: "walk ns s v q \<Longrightarrow> q \<noteq> []"
  by (auto simp: walk_def dest: is_walk_nonempty)

lemma walk_butlast:
  assumes "walk ns s v q" and "2 \<le> length q"
  shows "q = butlast q @ [v] \<and> walk ns s (last (butlast q)) (butlast q) \<and>
         v \<in> set (adjacent ns (last (butlast q)))"
proof -
  from assms have ne: "q \<noteq> []" by auto
  define q' where "q' = butlast q"
  from assms(1) ne have q: "q = q' @ [v]"
    by (simp add: q'_def walk_def) (metis append_butlast_last_id)
  from assms(2) q have ne': "q' \<noteq> []" by auto
  from assms(1) have "is_walk ns (q' @ [v])" "hd (q' @ [v]) = s" by (simp_all add: walk_def q)
  with ne' have "is_walk ns q'" "v \<in> set (adjacent ns (last q'))" "hd q' = s"
    by (simp_all add: is_walk_snoc)
  then have "walk ns s (last q') q'" by (simp add: walk_def)
  with q \<open>v \<in> set (adjacent ns (last q'))\<close> show ?thesis
    unfolding q'_def by simp
qed

subsection \<open>Link positions\<close>

lemma length_link_positions: "length (link_positions ns p) = length p - 1"
  by (induction ns p rule: link_positions.induct) simp_all

lemma link_positions_snoc:
  "p \<noteq> [] \<Longrightarrow> link_positions ns (p @ [c]) =
     link_positions ns p @ [index_of (adjacent ns (last p)) c]"
proof (induction ns p rule: link_positions.induct)
  case (1 ns)
  then show ?case by simp
next
  case (2 ns u)
  then show ?case by simp
next
  case (3 ns u v rest)
  then show ?case by simp
qed

lemma positions_snoc_less:
  fixes xs ys :: "nat list"
  assumes "xs < ys" and "length xs = length ys"
  shows "xs @ [a] < ys @ [b]"
  using assms by (simp add: list_less_def lexord_sufI)

lemma positions_snoc_last_less:
  fixes xs :: "nat list"
  assumes "a < b"
  shows "xs @ [a] < xs @ [b]"
  using assms by (simp add: list_less_def lexord_append_leftI)

lemma index_of_Cons_other: "x \<noteq> y \<Longrightarrow> index_of (y # ys) x = Suc (index_of ys x)"
  by simp

subsection \<open>What one link list contributes\<close>

lemma set_fresh: "set (fresh V cs) = set cs - V"
  by (induction cs arbitrary: V) auto

lemma fresh_ordered:
  "sorted_wrt (\<lambda>a b. index_of cs a < index_of cs b) (fresh V cs)"
proof (induction cs arbitrary: V)
  case Nil
  then show ?case by simp
next
  case (Cons c cs)
  have mono: "sorted_wrt (\<lambda>a b. index_of (c # cs) a < index_of (c # cs) b) (fresh W cs)"
    if "c \<in> W" for W
  proof (rule sorted_wrt_mono_rel[OF _ Cons.IH[of W]])
    fix a b assume "a \<in> set (fresh W cs)" "b \<in> set (fresh W cs)"
      and lt: "index_of cs a < index_of cs b"
    with that have "a \<noteq> c" "b \<noteq> c" by (auto simp: set_fresh)
    with lt show "index_of (c # cs) a < index_of (c # cs) b" by simp
  qed
  show ?case
  proof (cases "c \<in> V")
    case True
    then show ?thesis using mono[of V] by simp
  next
    case False
    have "\<forall>b \<in> set (fresh (insert c V) cs). index_of (c # cs) c < index_of (c # cs) b"
      by (auto simp: set_fresh)
    with False mono[of "insert c V"] show ?thesis by simp
  qed
qed

subsection \<open>What one level contributes\<close>

lemma level_paths_sound:
  "r \<in> set (level_paths ns P V) \<Longrightarrow>
   \<exists>p c. r = p @ [c] \<and> p \<in> set P \<and> c \<in> set (adjacent ns (last p)) \<and> c \<notin> V"
proof (induction P arbitrary: V)
  case Nil
  then show ?case by simp
next
  case (Cons p0 P)
  from Cons.prems consider
      (here) "r \<in> (\<lambda>c. p0 @ [c]) ` set (fresh V (adjacent ns (last p0)))"
    | (later) "r \<in> set (level_paths ns P (V \<union> set (adjacent ns (last p0))))"
    by auto
  then show ?case
  proof cases
    case here
    then show ?thesis by (auto simp: set_fresh)
  next
    case later
    from Cons.IH[OF later] show ?thesis by auto
  qed
qed

lemma level_paths_complete:
  "p \<in> set P \<Longrightarrow> c \<in> set (adjacent ns (last p)) \<Longrightarrow> c \<notin> V \<Longrightarrow>
   \<exists>p' \<in> set P. p' @ [c] \<in> set (level_paths ns P V)"
proof (induction P arbitrary: V)
  case Nil
  then show ?case by simp
next
  case (Cons p0 P)
  show ?case
  proof (cases "c \<in> set (adjacent ns (last p0))")
    case True
    with Cons.prems(3) have "c \<in> set (fresh V (adjacent ns (last p0)))"
      by (simp add: set_fresh)
    then show ?thesis by auto
  next
    case False
    with Cons.prems have "p \<in> set P" "c \<notin> V \<union> set (adjacent ns (last p0))" by auto
    from Cons.IH[OF this(1) Cons.prems(2) this(2)] show ?thesis by auto
  qed
qed

lemma level_paths_first_parent:
  "sorted_wrt R P \<Longrightarrow> p @ [c] \<in> set (level_paths ns P V) \<Longrightarrow> p' \<in> set P \<Longrightarrow>
   c \<in> set (adjacent ns (last p')) \<Longrightarrow> p = p' \<or> R p p'"
proof (induction P arbitrary: V)
  case Nil
  then show ?case by simp
next
  case (Cons p0 P)
  from Cons.prems(2) consider
      (here) "p @ [c] \<in> (\<lambda>c. p0 @ [c]) ` set (fresh V (adjacent ns (last p0)))"
    | (later) "p @ [c] \<in> set (level_paths ns P (V \<union> set (adjacent ns (last p0))))"
    by auto
  then show ?case
  proof cases
    case here
    then have "p = p0" by auto
    with Cons.prems(1,3) show ?thesis by auto
  next
    case later
    from level_paths_sound[OF later] have "c \<notin> set (adjacent ns (last p0))" by auto
    with Cons.prems(3,4) have "p' \<in> set P" by auto
    from Cons.prems(1) have "sorted_wrt R P" by simp
    from Cons.IH[OF this later \<open>p' \<in> set P\<close> Cons.prems(4)] show ?thesis .
  qed
qed

lemma level_paths_sorted:
  assumes "sorted_wrt (\<lambda>p q. link_positions ns p < link_positions ns q) P"
    and "\<forall>p \<in> set P. length p = Suc k"
  shows "sorted_wrt (\<lambda>p q. link_positions ns p < link_positions ns q) (level_paths ns P V)"
  using assms
proof (induction P arbitrary: V)
  case Nil
  then show ?case by simp
next
  case (Cons p0 P)
  let ?cs = "adjacent ns (last p0)"
  let ?A = "map (\<lambda>c. p0 @ [c]) (fresh V ?cs)"
  let ?B = "level_paths ns P (V \<union> set ?cs)"
  from Cons.prems(2) have ne: "p0 \<noteq> []" by auto
  have A: "sorted_wrt (\<lambda>p q. link_positions ns p < link_positions ns q) ?A"
  proof -
    have "sorted_wrt (\<lambda>a b. link_positions ns (p0 @ [a]) < link_positions ns (p0 @ [b])) (fresh V ?cs)"
      by (rule sorted_wrt_mono_rel[OF _ fresh_ordered[of ?cs V]])
         (simp add: link_positions_snoc[OF ne] positions_snoc_last_less)
    then show ?thesis by (simp add: sorted_wrt_map)
  qed
  have B: "sorted_wrt (\<lambda>p q. link_positions ns p < link_positions ns q) ?B"
    using Cons.prems by (intro Cons.IH) simp_all
  have AB: "link_positions ns a < link_positions ns b" if "a \<in> set ?A" "b \<in> set ?B" for a b
  proof -
    from that(1) obtain c where a: "a = p0 @ [c]" by auto
    from level_paths_sound[OF that(2)] obtain p c' where b: "b = p @ [c']" "p \<in> set P" by auto
    from Cons.prems(1) b(2) have lt: "link_positions ns p0 < link_positions ns p" by simp
    from Cons.prems(2) b(2) have len: "length p0 = length p" "p \<noteq> []" by auto
    then have "length (link_positions ns p0) = length (link_positions ns p)"
      by (simp add: length_link_positions)
    from positions_snoc_less[OF lt this] show ?thesis
      by (simp add: a b(1) link_positions_snoc ne len(2))
  qed
  show ?case using A B AB by (simp add: sorted_wrt_append)
qed

subsection \<open>The invariant of the levels\<close>

lemma level_inv_init: "level_inv ns s 0 [[s]] {}"
proof -
  have "\<And>v q. walk ns s v q \<Longrightarrow> length q = Suc 0 \<Longrightarrow> v = s"
    using walk_length_one by fastforce
  moreover have "\<And>q. walk ns s s q \<Longrightarrow> length q = Suc 0 \<Longrightarrow> link_positions ns q = []"
    using walk_length_one by fastforce
  ultimately show ?thesis
    by (auto simp: level_inv_def walk_single)
qed

lemma level_parent:
  assumes inv: "level_inv ns s k P V"
    and q: "walk ns s v q" "length q = Suc (Suc k)"
    and v: "v \<notin> V"
  obtains q' p where "q = q' @ [v]" "walk ns s (last q') q'" "length q' = Suc k"
    "v \<in> set (adjacent ns (last q'))" "p \<in> set P" "last p = last q'"
proof -
  define q' where "q' = butlast q"
  from q(2) have "2 \<le> length q" by simp
  from walk_butlast[OF q(1) this] q(2)
  have q': "q = q' @ [v]" "walk ns s (last q') q'"
    "v \<in> set (adjacent ns (last q'))" "length q' = Suc k"
    unfolding q'_def by simp_all
  have "length q'' < 2 \<or> Suc k \<le> length q''" if w: "walk ns s (last q') q''" for q''
  proof (rule ccontr)
    assume "\<not> (length q'' < 2 \<or> Suc k \<le> length q'')"
    then have len: "2 \<le> length q''" "length q'' \<le> k" by auto
    from walk_snoc[OF w q'(3)] have "walk ns s v (q'' @ [v])" .
    moreover from len have "2 \<le> length (q'' @ [v])" "length (q'' @ [v]) \<le> Suc k" by auto
    ultimately have "v \<in> V" using inv unfolding level_inv_def by blast
    with v show False by simp
  qed
  with q'(2,4) inv have "last q' \<in> last ` set P"
    unfolding level_inv_def by blast
  then obtain p where "p \<in> set P" "last p = last q'" by auto
  with q' show thesis by (intro that[of q' p]) simp_all
qed

lemma level_inv_walks:
  assumes "level_inv ns s k P V" and "r \<in> set (level_paths ns P V)"
  shows "walk ns s (last r) r \<and> length r = Suc (Suc k)"
proof -
  from level_paths_sound[OF assms(2)] obtain p c where
    r: "r = p @ [c]" "p \<in> set P" "c \<in> set (adjacent ns (last p))" by auto
  from assms(1) r(2) have p: "walk ns s (last p) p" "length p = Suc k"
    by (auto simp: level_inv_def)
  from walk_snoc[OF p(1) r(3)] p(2) show ?thesis by (simp add: r(1))
qed

lemma level_inv_visited:
  assumes inv: "level_inv ns s k P V"
  shows "level_visited ns P V =
         {v. \<exists>q. walk ns s v q \<and> 2 \<le> length q \<and> length q \<le> Suc (Suc k)}"
proof (intro set_eqI iffI)
  fix v assume "v \<in> level_visited ns P V"
  then consider "v \<in> V" | p where "p \<in> set P" "v \<in> set (adjacent ns (last p))"
    by (auto simp: level_visited_def)
  then show "v \<in> {v. \<exists>q. walk ns s v q \<and> 2 \<le> length q \<and> length q \<le> Suc (Suc k)}"
  proof cases
    case 1
    with inv obtain q where "walk ns s v q" "2 \<le> length q" "length q \<le> Suc k"
      unfolding level_inv_def by blast
    then show ?thesis by auto
  next
    case 2
    from inv 2(1) have p: "walk ns s (last p) p" "length p = Suc k"
      by (auto simp: level_inv_def)
    from walk_snoc[OF p(1) 2(2)] p(2) show ?thesis
      by (intro CollectI exI[of _ "p @ [v]"]) simp
  qed
next
  fix v assume "v \<in> {v. \<exists>q. walk ns s v q \<and> 2 \<le> length q \<and> length q \<le> Suc (Suc k)}"
  then obtain q where q: "walk ns s v q" "2 \<le> length q" "length q \<le> Suc (Suc k)" by auto
  show "v \<in> level_visited ns P V"
  proof (cases "v \<in> V")
    case True
    then show ?thesis by (simp add: level_visited_def)
  next
    case False
    with inv q have "length q = Suc (Suc k)"
      unfolding level_inv_def by (metis (mono_tags, lifting) le_SucE mem_Collect_eq)
    from level_parent[OF inv q(1) this False] obtain q' p where
      "v \<in> set (adjacent ns (last q'))" "p \<in> set P" "last p = last q'" by metis
    then have "p \<in> set P" "v \<in> set (adjacent ns (last p))" by simp_all
    then show ?thesis unfolding level_visited_def by blast
  qed
qed

lemma level_inv_complete:
  assumes inv: "level_inv ns s k P V"
    and q: "walk ns s v q" "length q = Suc (Suc k)"
    and least: "\<forall>q'. walk ns s v q' \<longrightarrow> length q' < 2 \<or> Suc (Suc k) \<le> length q'"
  shows "v \<in> last ` set (level_paths ns P V)"
proof -
  have v: "v \<notin> V"
  proof
    assume "v \<in> V"
    with inv obtain q' where "walk ns s v q'" "2 \<le> length q'" "length q' \<le> Suc k"
      unfolding level_inv_def by blast
    with least show False by fastforce
  qed
  from level_parent[OF inv q v] obtain q' p where
    p: "v \<in> set (adjacent ns (last q'))" "p \<in> set P" "last p = last q'" by metis
  then have "v \<in> set (adjacent ns (last p))" by simp
  from level_paths_complete[OF p(2) this v] obtain p' where
    "p' @ [v] \<in> set (level_paths ns P V)" by auto
  then have "last (p' @ [v]) \<in> last ` set (level_paths ns P V)" by (rule imageI)
  then show ?thesis by simp
qed

lemma level_inv_least:
  assumes inv: "level_inv ns s k P V"
    and r: "r \<in> set (level_paths ns P V)"
    and q: "walk ns s (last r) q" "length q = Suc (Suc k)"
  shows "link_positions ns r \<le> link_positions ns q"
proof -
  from level_paths_sound[OF r] obtain p c where
    rp: "r = p @ [c]" "p \<in> set P" "c \<in> set (adjacent ns (last p))" "c \<notin> V" by auto
  from q(1) have qc: "walk ns s c q" by (simp add: rp(1))
  from level_parent[OF inv qc q(2) rp(4)] obtain q' pu where
    q': "q = q' @ [c]" "walk ns s (last q') q'" "length q' = Suc k"
      "c \<in> set (adjacent ns (last q'))" "pu \<in> set P" "last pu = last q'" by metis
  from inv rp(2) q'(5) have len: "length p = Suc k" "length pu = Suc k"
    by (auto simp: level_inv_def)
  with q'(3) have ne: "p \<noteq> []" "q' \<noteq> []" by auto
  from inv q'(2,3,5,6) have le: "link_positions ns pu \<le> link_positions ns q'"
    unfolding level_inv_def by auto
  from inv have "sorted_wrt (\<lambda>p q. link_positions ns p < link_positions ns q) P"
    by (simp add: level_inv_def)
  from level_paths_first_parent[OF this, of p c ns V pu] r rp(1) q'(4,5,6)
  have first: "p = pu \<or> link_positions ns p < link_positions ns pu" by simp
  show ?thesis
  proof (cases "link_positions ns p < link_positions ns q'")
    case True
    have "length (link_positions ns p) = length (link_positions ns q')"
      by (simp add: length_link_positions len q'(3))
    from positions_snoc_less[OF True this] show ?thesis
      by (simp add: rp(1) q'(1) link_positions_snoc ne less_imp_le)
  next
    case False
    with first le have "p = pu" by auto
    with q'(6) have "last p = last q'" by simp
    moreover from False first le \<open>p = pu\<close> have "link_positions ns p = link_positions ns q'"
      by auto
    ultimately show ?thesis
      by (simp add: rp(1) q'(1) link_positions_snoc ne)
  qed
qed

lemma level_inv_step:
  assumes inv: "level_inv ns s k P V"
  shows "level_inv ns s (Suc k) (level_paths ns P V) (level_visited ns P V)"
proof -
  from inv have "sorted_wrt (\<lambda>p q. link_positions ns p < link_positions ns q) P"
    and "\<forall>p \<in> set P. length p = Suc k"
    by (auto simp: level_inv_def)
  then have "sorted_wrt (\<lambda>p q. link_positions ns p < link_positions ns q) (level_paths ns P V)"
    by (rule level_paths_sorted)
  with level_inv_walks[OF inv] level_inv_visited[OF inv] level_inv_complete[OF inv]
    level_inv_least[OF inv]
  show ?thesis unfolding level_inv_def by blast
qed

subsection \<open>The search finds the first shortest walk\<close>

lemma bfs_levels:
  assumes "level_inv ns s k P V"
    and "walk ns s d q0" and "length q0 = Suc (k + m)"
    and "\<forall>q. walk ns s d q \<longrightarrow> Suc (k + m) \<le> length q"
  shows "walk ns s d (bfs_loop d ns (V, P)) \<and>
         length (bfs_loop d ns (V, P)) = Suc (k + m) \<and>
         (\<forall>q. walk ns s d q \<and> length q = Suc (k + m) \<longrightarrow>
              link_positions ns (bfs_loop d ns (V, P)) \<le> link_positions ns q)"
  using assms
proof (induction m arbitrary: k P V)
  case 0
  from "0.prems"(4) have "\<forall>q'. walk ns s d q' \<longrightarrow> length q' < 2 \<or> Suc k \<le> length q'"
    by auto
  with "0.prems"(1,2,3) have "d \<in> last ` set P"
    unfolding level_inv_def by (metis (no_types, lifting) add.right_neutral)
  then have "\<exists>p \<in> set P. last p = d" by auto
  then obtain P1 p P2 where P: "P = P1 @ p # P2" "last p = d" "\<forall>y \<in> set P1. last y \<noteq> d"
    using split_list_first_prop[of P "\<lambda>p. last p = d"] by blast
  from "0.prems"(1) have all: "\<forall>p \<in> set P. walk ns s (last p) p \<and> length p = Suc k"
    and least: "\<forall>p \<in> set P. \<forall>q. walk ns s (last p) q \<and> length q = Suc k \<longrightarrow>
            link_positions ns p \<le> link_positions ns q"
    by (simp_all add: level_inv_def)
  from all have "\<forall>y \<in> set P. y \<noteq> []" by fastforce
  with P(1) have ne: "\<forall>y \<in> set P1. y \<noteq> []" "p \<noteq> []" by simp_all
  with P(3) have "\<forall>y \<in> set P1. y \<noteq> [] \<and> last y \<noteq> d" by simp
  from bfs_loop_first_hit[OF this ne(2) P(2), of ns V P2]
  have res: "bfs_loop d ns (V, P) = p" by (simp add: P(1))
  from P(1) have "p \<in> set P" by simp
  with all least have "walk ns s (last p) p" "length p = Suc k"
    "\<forall>q. walk ns s (last p) q \<and> length q = Suc k \<longrightarrow> link_positions ns p \<le> link_positions ns q"
    by blast+
  with P(2) show ?case by (simp add: res)
next
  case (Suc m)
  from Suc.prems(1) have all: "\<forall>p \<in> set P. walk ns s (last p) p \<and> length p = Suc k"
    by (simp add: level_inv_def)
  have miss: "\<forall>p \<in> set P. p \<noteq> [] \<and> last p \<noteq> d"
  proof
    fix p assume p: "p \<in> set P"
    with all have w: "walk ns s (last p) p" "length p = Suc k" by auto
    have "last p \<noteq> d"
    proof
      assume "last p = d"
      with w(1) Suc.prems(4) have "Suc (k + Suc m) \<le> length p" by auto
      with w(2) show False by simp
    qed
    with w(2) show "p \<noteq> [] \<and> last p \<noteq> d" by auto
  qed
  from bfs_loop_level[OF miss, of ns V "[]"]
  have eq: "bfs_loop d ns (V, P) = bfs_loop d ns (level_visited ns P V, level_paths ns P V)"
    by simp
  from Suc.prems(3,4) have "length q0 = Suc (Suc k + m)"
    "\<forall>q. walk ns s d q \<longrightarrow> Suc (Suc k + m) \<le> length q" by simp_all
  from Suc.IH[OF level_inv_step[OF Suc.prems(1)] Suc.prems(2) this]
  show ?case by (simp add: eq)
qed

lemma reachable_distance:
  assumes "reachable ns s d"
  shows "\<exists>q. walk ns s d q \<and> length q = Suc (distance ns s d)"
    and "\<forall>q. walk ns s d q \<longrightarrow> Suc (distance ns s d) \<le> length q"
proof -
  from assms obtain p where p: "walk ns s d p" by (auto simp: reachable_def)
  then have "length p = Suc (length p - 1)" by (cases p) (auto simp: walk_def)
  with p have ex: "\<exists>q. walk ns s d q \<and> length q = Suc (length p - 1)" by blast
  from LeastI[of "\<lambda>k. \<exists>q. walk ns s d q \<and> length q = Suc k", OF ex]
  show "\<exists>q. walk ns s d q \<and> length q = Suc (distance ns s d)"
    by (simp add: distance_def)
  show "\<forall>q. walk ns s d q \<longrightarrow> Suc (distance ns s d) \<le> length q"
  proof (intro allI impI)
    fix q assume q: "walk ns s d q"
    then have "length q = Suc (length q - 1)" by (cases q) (auto simp: walk_def)
    with q have "\<exists>q'. walk ns s d q' \<and> length q' = Suc (length q - 1)" by blast
    from Least_le[of "\<lambda>k. \<exists>q. walk ns s d q \<and> length q = Suc k", OF this]
    have "distance ns s d \<le> length q - 1" by (simp add: distance_def)
    with \<open>length q = Suc (length q - 1)\<close> show "Suc (distance ns s d) \<le> length q" by simp
  qed
qed

lemma findPath_least_walk:
  assumes "reachable ns s d"
  shows "walk ns s d (findPath s d ns)"
    and "length (findPath s d ns) = Suc (distance ns s d)"
    and "\<forall>q. walk ns s d q \<longrightarrow> length (findPath s d ns) \<le> length q"
    and "\<forall>q. walk ns s d q \<and> length q = length (findPath s d ns) \<longrightarrow>
           link_positions ns (findPath s d ns) \<le> link_positions ns q"
proof -
  from reachable_distance[OF assms] obtain q0 where
    q0: "walk ns s d q0" "length q0 = Suc (0 + distance ns s d)"
    and least: "\<forall>q. walk ns s d q \<longrightarrow> Suc (0 + distance ns s d) \<le> length q" by auto
  from bfs_levels[OF level_inv_init q0 least]
  have *: "walk ns s d (findPath s d ns) \<and>
         length (findPath s d ns) = Suc (distance ns s d) \<and>
         (\<forall>q. walk ns s d q \<and> length q = Suc (distance ns s d) \<longrightarrow>
              link_positions ns (findPath s d ns) \<le> link_positions ns q)"
    by (simp add: findPath_def)
  then show "walk ns s d (findPath s d ns)"
    and "length (findPath s d ns) = Suc (distance ns s d)" by simp_all
  from * least show "\<forall>q. walk ns s d q \<longrightarrow> length (findPath s d ns) \<le> length q" by simp
  from * show "\<forall>q. walk ns s d q \<and> length q = length (findPath s d ns) \<longrightarrow>
           link_positions ns (findPath s d ns) \<le> link_positions ns q" by simp
qed

subsection \<open>The search returns nothing but walks to the destination\<close>

lemma bfs_loop_sound:
  "(\<forall>p \<in> set (snd vq). walk ns s (last p) p) \<Longrightarrow>
   bfs_loop d ns vq = [] \<or> walk ns s d (bfs_loop d ns vq)"
proof (induction d ns vq rule: bfs_loop.induct)
  case (1 destination ns visited)
  then show ?case by simp
next
  case (2 destination ns visited path queue)
  from "2.prems" have path: "walk ns s (last path) path"
    and queue: "\<forall>p \<in> set queue. walk ns s (last p) p" by simp_all
  from path have ne: "path \<noteq> []" by (rule walk_nonempty)
  show ?case
  proof (cases "last path = destination")
    case True
    with path ne show ?thesis by simp
  next
    case False
    show ?thesis
    proof (cases "find (\<lambda>n. n_id n = last path) ns")
      case None
      from "2.IH"(2)[OF ne False None] queue ne False None show ?thesis by simp
    next
      case (Some currentNode)
      then have adj: "adjacent ns (last path) = n_connections currentNode"
        by (simp add: adjacent_def)
      have "\<forall>p \<in> set (snd (visit_connections path (n_connections currentNode) (visited, queue))).
              walk ns s (last p) p"
        using queue walk_snoc[OF path]
        by (auto simp: visit_connections_eq set_fresh adj[symmetric])
      from "2.IH"(3)[OF ne False Some this] ne False Some show ?thesis by simp
    qed
  qed
qed

lemma findPath_sound: "findPath s d ns = [] \<or> walk ns s d (findPath s d ns)"
  unfolding findPath_def by (rule bfs_loop_sound) (simp add: walk_single)

lemma findPath_unreachable: "\<not> reachable ns s d \<Longrightarrow> findPath s d ns = []"
  using findPath_sound[of s d ns] by (auto simp: reachable_def)

lemma index_of_inj:
  "x \<in> set xs \<Longrightarrow> y \<in> set xs \<Longrightarrow> index_of xs x = index_of xs y \<Longrightarrow> x = y"
  by (induction xs) (auto split: if_splits)

lemma link_positions_inj:
  "is_walk ns p \<Longrightarrow> is_walk ns q \<Longrightarrow> hd p = hd q \<Longrightarrow> length p = length q \<Longrightarrow>
   link_positions ns p = link_positions ns q \<Longrightarrow> p = q"
proof (induction ns p arbitrary: q rule: is_walk.induct)
  case (1 ns)
  then show ?case by simp
next
  case (2 ns u)
  then show ?case by (cases q) auto
next
  case (3 ns u v rest)
  from "3.prems"(4) obtain u' v' rest' where q: "q = u' # v' # rest'"
    by (cases q; cases "tl q") auto
  with "3.prems" have u: "u' = u" and v': "v' \<in> set (adjacent ns u)" by simp_all
  from "3.prems" q u have "index_of (adjacent ns u) v = index_of (adjacent ns u) v'" by simp
  with "3.prems"(1) v' have v: "v' = v" by (simp add: index_of_inj)
  from "3.IH"[of "v' # rest'"] "3.prems" q u v show ?case by simp
qed

lemma is_walk_rtrancl:
  "is_walk ns p \<Longrightarrow> (hd p, last p) \<in> {(u, v). v \<in> set (adjacent ns u)}\<^sup>*"
proof (induction ns p rule: is_walk.induct)
  case (1 ns)
  then show ?case by simp
next
  case (2 ns u)
  then show ?case by simp
next
  case (3 ns u v rest)
  then have "(u, v) \<in> {(u, v). v \<in> set (adjacent ns u)}"
    and "(v, last (v # rest)) \<in> {(u, v). v \<in> set (adjacent ns u)}\<^sup>*" by simp_all
  then show ?case by (simp add: converse_rtrancl_into_rtrancl)
qed

lemma reachable_iff_rtrancl:
  "reachable ns s d \<longleftrightarrow> (s, d) \<in> {(u, v). v \<in> set (adjacent ns u)}\<^sup>*"
proof
  assume "reachable ns s d"
  then obtain p where "is_walk ns p" "hd p = s" "last p = d"
    by (auto simp: reachable_def walk_def)
  with is_walk_rtrancl[of ns p] show "(s, d) \<in> {(u, v). v \<in> set (adjacent ns u)}\<^sup>*" by simp
next
  assume "(s, d) \<in> {(u, v). v \<in> set (adjacent ns u)}\<^sup>*"
  then show "reachable ns s d"
  proof (induction rule: rtrancl_induct)
    case base
    then show ?case using walk_single by (auto simp: reachable_def)
  next
    case (step y z)
    then obtain p where "walk ns s y p" by (auto simp: reachable_def)
    with step(2) have "walk ns s z (p @ [z])" by (auto intro: walk_snoc)
    then show ?case by (auto simp: reachable_def)
  qed
qed

subsection \<open>Claims about findPath\<close>

lemma no_links_no_walk:
  assumes "adjacent ns s = []" and "walk ns s d p"
  shows "d = s"
proof (cases p)
  case Nil
  with assms(2) show ?thesis by (simp add: walk_def)
next
  case (Cons u rest)
  with assms show ?thesis by (cases rest) (auto simp: walk_def)
qed

lemma sendPacket_unreachable: "findPath s d (nodes st) = [] \<Longrightarrow> sendPacket s d dat now st = st"
  by (simp add: sendPacket_def)

text \<open>
  Claim C4. When no walk along the link lists leads from \<open>s\<close> to \<open>d\<close> (\<open>d\<close> is not in the
  reflexive and transitive closure of the links from \<open>s\<close>), \<open>findPath\<close> returns the
  empty sequence and \<open>sendPacket(s, d, data)\<close> returns the state it was given: no packet is
  added, the statistics are unchanged, and nothing else is (the handler has no error to
  report).
\<close>

theorem unreachable_no_packet:
  assumes "\<not> reachable (nodes st) s d"
  shows "findPath s d (nodes st) = [] \<and>
         sendPacket s d dat now st = st \<and>
         packets (sendPacket s d dat now st) = packets st \<and>
         networkStats (sendPacket s d dat now st) = networkStats st"
  using findPath_unreachable[OF assms] by (simp add: sendPacket_unreachable)

lemma nodes_isolatedState:
  "nodes isolatedState = lineNodes @
     [\<lparr>n_id = ''N4'', n_type = Host, n_label = ''Host 4'', n_x = Num 200, n_y = Num 200,
       n_connections = [], n_status = Active, n_ip = Some ''10.0.0.4'',
       n_bandwidth = Some (Num 10), n_latency = Some (Num 0.5), n_packetLoss = Some (Num 0)\<rparr>]"
  by (simp add: isolatedState_def addNode_def lineState_def lineNodes_def Let_def
        show_nat.simps digit_char_def)

lemma isolated_unreachable: "\<not> reachable (nodes isolatedState) ''N4'' ''A''"
proof
  assume "reachable (nodes isolatedState) ''N4'' ''A''"
  then obtain p where p: "walk (nodes isolatedState) ''N4'' ''A'' p" by (auto simp: reachable_def)
  have "adjacent (nodes isolatedState) ''N4'' = []"
    by (simp add: adjacent_def nodes_isolatedState lineNodes_def initialNode_def)
  from no_links_no_walk[OF this p] show False by simp
qed

text \<open>The isolated fourth node of the line topology cannot send to A.\<close>

theorem unreachable_no_packet_witness:
  "\<not> reachable (nodes isolatedState) ''N4'' ''A'' \<and>
   findPath ''N4'' ''A'' (nodes isolatedState) = [] \<and>
   sendPacket ''N4'' ''A'' ''data'' 0 isolatedState = isolatedState"
  using unreachable_no_packet[OF isolated_unreachable, of "''data''" 0] isolated_unreachable
  by simp

text \<open>
  Claim C1, as the code has it. When \<open>d\<close> can be reached from \<open>s\<close> along the link lists,
  \<open>findPath(s, d, nodes)\<close> returns a walk that starts at \<open>s\<close> and ends at \<open>d\<close>; its number of
  ids is the hop-count distance from \<open>s\<close> to \<open>d\<close> plus one, so it has as many hops as the
  distance, and no walk from \<open>s\<close> to \<open>d\<close> is shorter; and among the shortest walks it is the
  first in link order: every other shortest walk from \<open>s\<close> to \<open>d\<close> comes strictly later when
  the positions of the links taken, each in its node's link list, are compared from the
  source on.
\<close>

theorem findPath_shortest_first:
  assumes "reachable ns s d"
  shows "hd (findPath s d ns) = s \<and> last (findPath s d ns) = d \<and>
         is_walk ns (findPath s d ns) \<and>
         length (findPath s d ns) = distance ns s d + 1 \<and>
         (\<forall>q. walk ns s d q \<longrightarrow> length (findPath s d ns) \<le> length q) \<and>
         (\<forall>q. walk ns s d q \<and> length q = length (findPath s d ns) \<and> q \<noteq> findPath s d ns \<longrightarrow>
              link_positions ns (findPath s d ns) < link_positions ns q)"
proof -
  note fp = findPath_least_walk[OF assms]
  have "link_positions ns (findPath s d ns) < link_positions ns q"
    if q: "walk ns s d q" "length q = length (findPath s d ns)" "q \<noteq> findPath s d ns" for q
  proof -
    from fp(4) q have le: "link_positions ns (findPath s d ns) \<le> link_positions ns q" by blast
    have "link_positions ns (findPath s d ns) \<noteq> link_positions ns q"
    proof
      assume "link_positions ns (findPath s d ns) = link_positions ns q"
      with fp(1) q(1,2) have "findPath s d ns = q"
        by (intro link_positions_inj[of ns]) (simp_all add: walk_def)
      with q(3) show False by simp
    qed
    with le show ?thesis by simp
  qed
  with fp(1,2,3) show ?thesis by (simp add: walk_def)
qed

lemma findPath_diamond: "findPath ''S'' ''T'' diamondNodes = [''S'', ''X'', ''T'']"
  by (simp add: findPath_def diamondNodes_def initialNode_def)

lemma walk_diamond_Y: "walk diamondNodes ''S'' ''T'' [''S'', ''Y'', ''T'']"
  by (simp add: walk_def adjacent_def diamondNodes_def initialNode_def)

lemma adjacent_diamond:
  "adjacent diamondNodes ''S'' = [''X'', ''Y'']"
  "adjacent diamondNodes ''X'' = [''S'', ''T'']"
  "adjacent diamondNodes ''Y'' = [''S'', ''T'']"
  by (simp_all add: adjacent_def diamondNodes_def initialNode_def)

text \<open>In the diamond the walk through X is returned; the walk through Y comes later.\<close>

theorem findPath_shortest_first_witness:
  "reachable diamondNodes ''S'' ''T'' \<and>
   findPath ''S'' ''T'' diamondNodes = [''S'', ''X'', ''T''] \<and>
   distance diamondNodes ''S'' ''T'' = 2 \<and>
   walk diamondNodes ''S'' ''T'' [''S'', ''Y'', ''T''] \<and>
   link_positions diamondNodes [''S'', ''X'', ''T''] < link_positions diamondNodes [''S'', ''Y'', ''T'']"
proof -
  have r: "reachable diamondNodes ''S'' ''T''"
    using walk_diamond_Y by (auto simp: reachable_def)
  from findPath_shortest_first[OF r] walk_diamond_Y r show ?thesis
    by (simp add: findPath_diamond adjacent_diamond)
qed

lemma walk_line: "walk lineNodes ''A'' ''C'' [''A'', ''B'', ''C'']"
  by (simp add: walk_def adjacent_def lineNodes_def initialNode_def)

text \<open>
  Claim C1 as stated fails: from A to C in the line topology the distance is 2 hops and the
  sequence returned has length 3.
\<close>

theorem findPath_length_is_not_distance:
  "length (findPath ''A'' ''C'' lineNodes) = 3 \<and> distance lineNodes ''A'' ''C'' = 2"
proof -
  have "reachable lineNodes ''A'' ''C''" using walk_line by (auto simp: reachable_def)
  from findPath_least_walk(2)[OF this] show ?thesis by (simp add: findPath_line)
qed

end
